theory Spec2Isabelle
  imports Main "HOL-Library.AList"
begin

section \<open>Data model of the event bus\<close>

text \<open>
  The class \<^verbatim>\<open>EventBus\<close> of \<^verbatim>\<open>event-bus.tsx\<close> keeps one private field,
  \<^verbatim>\<open>listeners: Map<EventKey, Set<Listener>>\<close>.

  \<^item> \<^verbatim>\<open>EventKey = string | symbol\<close>: a string is compared by value, a symbol by identity
    (its number here).
  \<^item> A callback is a function object; the bus only ever compares it with \<^verbatim>\<open>===\<close> and
    calls it, so a listener stores the function's reference, and what the function does
    when called is given separately (the \<open>behaviour\<close> below).
  \<^item> The context is \<^verbatim>\<open>unknown\<close> with default \<^verbatim>\<open>null\<close>. The bus compares contexts
    with \<^verbatim>\<open>===\<close>, which holds between a value and itself except for \<^verbatim>\<open>NaN\<close>;
    \<open>Ref n\<close> is any value other than \<^verbatim>\<open>null\<close> and \<^verbatim>\<open>NaN\<close>, and \<open>Ref m\<close> is
    \<^verbatim>\<open>===\<close> to \<open>Ref n\<close> when \<open>m = n\<close>. An omitted context, or \<^verbatim>\<open>undefined\<close>, is
    \<^verbatim>\<open>null\<close> by the default of the parameter.
  \<^item> A \<^verbatim>\<open>Listener\<close> is an object \<^verbatim>\<open>{ callback, context, once }\<close>. A JavaScript
    \<^verbatim>\<open>Set\<close> holds objects by identity, so the record carries the identity of the
    object (\<open>l_id\<close>), taken from an allocation counter of the bus.
  \<^item> A \<^verbatim>\<open>Set\<close> is an object too: the map holds a reference to it, and so does an
    \<^verbatim>\<open>emit\<close> that is iterating over it, also after the key has been deleted from the
    map. The bus therefore has a store of sets (\<open>sets\<close>, from the address of a set to
    its elements) and the map gives the address of the set of a key.
  \<^item> A \<^verbatim>\<open>Set\<close> and a \<^verbatim>\<open>Map\<close> iterate in insertion order: the elements of a set are
    a list, the map and the store are association lists.
\<close>

datatype event_key = Str string | Sym nat

datatype callback = Fn nat

datatype context_val = Null | NaN | Ref nat

definition strict_eq :: "context_val \<Rightarrow> context_val \<Rightarrow> bool" where
  "strict_eq x y = (x = y \<and> x \<noteq> NaN)"

record listener =
  l_id :: nat
  l_callback :: callback
  l_context :: context_val
  l_once :: bool

record bus =
  listeners :: "(event_key \<times> nat) list"
  sets :: "(nat \<times> listener list) list"
  next_id :: nat
  next_set :: nat

definition new_EventBus :: bus where
  "new_EventBus = \<lparr>listeners = [], sets = [], next_id = 0, next_set = 0\<rparr>"

subsection \<open>The operations of \<^verbatim>\<open>Set<Listener>\<close> that the bus uses\<close>

definition set_add :: "listener \<Rightarrow> listener list \<Rightarrow> listener list" where
  "set_add l s = (if l_id l \<in> l_id ` set s then s else s @ [l])"

definition set_delete :: "listener \<Rightarrow> listener list \<Rightarrow> listener list" where
  "set_delete l s = filter (\<lambda>x. l_id x \<noteq> l_id l) s"

text \<open>The elements of the set at an address.\<close>

definition content :: "bus \<Rightarrow> nat \<Rightarrow> listener list" where
  "content b eventListeners =
     (case map_of (sets b) eventListeners of None \<Rightarrow> [] | Some s \<Rightarrow> s)"

section \<open>Subscribing\<close>

text \<open>
  The function returned by \<^verbatim>\<open>on\<close> closes over \<^verbatim>\<open>event\<close>, \<^verbatim>\<open>callback\<close> and
  \<^verbatim>\<open>context\<close>. Its \<^verbatim>\<open>forEach\<close> deletes the element it is visiting, which leaves
  the elements still to visit in place: it is a fold over the elements, on the set.
\<close>

definition on_unsubscribe :: "event_key \<Rightarrow> callback \<Rightarrow> context_val \<Rightarrow> bus \<Rightarrow> bus" where
  "on_unsubscribe event cb ctx b =
     (case map_of (listeners b) event of
        None \<Rightarrow> b
      | Some eventListeners \<Rightarrow>
          (let s = fold (\<lambda>l s. if l_callback l = cb \<and> strict_eq (l_context l) ctx
                                then set_delete l s else s)
                     (content b eventListeners) (content b eventListeners);
               b' = b\<lparr>sets := AList.update eventListeners s (sets b)\<rparr>
           in if length s = 0
              then b'\<lparr>listeners := AList.delete event (listeners b')\<rparr>
              else b'))"

definition on :: "event_key \<Rightarrow> callback \<Rightarrow> context_val \<Rightarrow> bus \<Rightarrow> (bus \<Rightarrow> bus) \<times> bus" where
  "on event cb ctx b =
     (let listener = \<lparr>l_id = next_id b, l_callback = cb, l_context = ctx, l_once = False\<rparr>
      in (on_unsubscribe event cb ctx,
          (case map_of (listeners b) event of
             None \<Rightarrow>
               \<lparr>listeners = AList.update event (next_set b) (listeners b),
                sets = AList.update (next_set b) (set_add listener []) (sets b),
                next_id = Suc (next_id b),
                next_set = Suc (next_set b)\<rparr>
           | Some eventListeners \<Rightarrow>
               \<lparr>listeners = listeners b,
                sets = AList.update eventListeners
                         (set_add listener (content b eventListeners)) (sets b),
                next_id = Suc (next_id b),
                next_set = next_set b\<rparr>)))"

definition once_unsubscribe :: "event_key \<Rightarrow> callback \<Rightarrow> context_val \<Rightarrow> bus \<Rightarrow> bus" where
  "once_unsubscribe event cb ctx b =
     (case map_of (listeners b) event of
        None \<Rightarrow> b
      | Some eventListeners \<Rightarrow>
          (let s = fold (\<lambda>l s. if l_callback l = cb \<and> strict_eq (l_context l) ctx
                                then set_delete l s else s)
                     (content b eventListeners) (content b eventListeners);
               b' = b\<lparr>sets := AList.update eventListeners s (sets b)\<rparr>
           in if length s = 0
              then b'\<lparr>listeners := AList.delete event (listeners b')\<rparr>
              else b'))"

definition once :: "event_key \<Rightarrow> callback \<Rightarrow> context_val \<Rightarrow> bus \<Rightarrow> (bus \<Rightarrow> bus) \<times> bus" where
  "once event cb ctx b =
     (let listener = \<lparr>l_id = next_id b, l_callback = cb, l_context = ctx, l_once = True\<rparr>
      in (once_unsubscribe event cb ctx,
          (case map_of (listeners b) event of
             None \<Rightarrow>
               \<lparr>listeners = AList.update event (next_set b) (listeners b),
                sets = AList.update (next_set b) (set_add listener []) (sets b),
                next_id = Suc (next_id b),
                next_set = Suc (next_set b)\<rparr>
           | Some eventListeners \<Rightarrow>
               \<lparr>listeners = listeners b,
                sets = AList.update eventListeners
                         (set_add listener (content b eventListeners)) (sets b),
                next_id = Suc (next_id b),
                next_set = next_set b\<rparr>)))"

section \<open>Removing listeners\<close>

text \<open>
  \<^verbatim>\<open>off(event, callback?, context = null)\<close>: an omitted callback is \<open>None\<close>. Deleting
  a key from the map leaves the set it had as it is.
\<close>

definition off :: "event_key \<Rightarrow> callback option \<Rightarrow> context_val \<Rightarrow> bus \<Rightarrow> bus" where
  "off event cbo ctx b =
     (case map_of (listeners b) event of
        None \<Rightarrow> b
      | Some eventListeners \<Rightarrow>
          (case cbo of
             None \<Rightarrow> b\<lparr>listeners := AList.delete event (listeners b)\<rparr>
           | Some cb \<Rightarrow>
               (let s = fold (\<lambda>l s. if l_callback l = cb \<and>
                                        (ctx = Null \<or> strict_eq (l_context l) ctx)
                                     then set_delete l s else s)
                          (content b eventListeners) (content b eventListeners);
                    b' = b\<lparr>sets := AList.update eventListeners s (sets b)\<rparr>
                in if length s = 0
                   then b'\<lparr>listeners := AList.delete event (listeners b')\<rparr>
                   else b')))"

definition clear :: "event_key option \<Rightarrow> bus \<Rightarrow> bus" where
  "clear evo b =
     (case evo of
        Some event \<Rightarrow> b\<lparr>listeners := AList.delete event (listeners b)\<rparr>
      | None \<Rightarrow> b\<lparr>listeners := []\<rparr>)"

section \<open>Introspection\<close>

definition listenerCount :: "bus \<Rightarrow> event_key \<Rightarrow> nat" where
  "listenerCount b event =
     (case map_of (listeners b) event of
        Some eventListeners \<Rightarrow> length (content b eventListeners)
      | None \<Rightarrow> 0)"

definition hasListeners :: "bus \<Rightarrow> event_key \<Rightarrow> bool" where
  "hasListeners b event = (listenerCount b event > 0)"

definition eventNames :: "bus \<Rightarrow> event_key list" where
  "eventNames b = map fst (listeners b)"

section \<open>Callbacks\<close>

text \<open>
  A callback is called as \<^verbatim>\<open>listener.callback.call(listener.context, payload)\<close>. It is
  code outside the bus: it may change the state of the program outside the bus (\<open>'w\<close>),
  call the bus, any number of times, and in the end it returns or throws. What it does
  is a program: \<open>Finish r w\<close> ends the call with the outcome \<open>r\<close> and leaves the outside
  state \<open>w\<close>; \<open>Perform w op cont\<close> leaves the outside state \<open>w\<close>, performs the operation
  \<open>op\<close> on the bus and goes on as \<open>cont\<close> says, from the bus and the outside state that
  the operation has left. A \<open>behaviour\<close> gives the program of a call from the function's
  reference, the receiver, the payload, the bus and the outside state.

  An operation is one of the methods of the bus, or a call of the function that
  \<^verbatim>\<open>on\<close> (\<open>Unsubscribe\<close>), respectively \<^verbatim>\<open>once\<close> (\<open>UnsubscribeOnce\<close>), returned for
  the given event, callback and context.
\<close>

datatype 'e outcome = Returns | Throws 'e

datatype 'p operation =
    On event_key callback context_val
  | Once event_key callback context_val
  | Unsubscribe event_key callback context_val
  | UnsubscribeOnce event_key callback context_val
  | Off event_key "callback option" context_val
  | Clear "event_key option"
  | Emit event_key 'p

datatype ('p, 'e, 'w) prog =
    is_Finish: Finish (result: "'e outcome") (final: 'w)
  | Perform 'w "'p operation" "bus \<Rightarrow> 'w \<Rightarrow> ('p, 'e, 'w) prog"

type_synonym ('p, 'e, 'w) behaviour =
  "callback \<Rightarrow> context_val \<Rightarrow> 'p \<Rightarrow> bus \<Rightarrow> 'w \<Rightarrow> ('p, 'e, 'w) prog"

text \<open>
  Besides the bus, an emission acts on what is outside it: the state of the callbacks,
  the sequence of calls made (kept here to state which listeners were invoked, with which
  receiver and argument), and the lines written with \<^verbatim>\<open>console.error\<close>.
\<close>

record 'p invocation =
  fn :: callback
  receiver :: context_val
  arg :: 'p

record ('p, 'e, 'w) outside =
  world :: 'w
  calls :: "'p invocation list"
  console :: "(event_key \<times> 'e) list"

definition invocation_of :: "'p \<Rightarrow> listener \<Rightarrow> 'p invocation" where
  "invocation_of p l = \<lparr>fn = l_callback l, receiver = l_context l, arg = p\<rparr>"

section \<open>Emitting\<close>

text \<open>
  The body of the \<^verbatim>\<open>forEach\<close> in \<^verbatim>\<open>emit\<close>, from the result of the call: in the
  \<^verbatim>\<open>try\<close> block a one-time listener is pushed on \<^verbatim>\<open>toRemove\<close> after the call;
  the \<^verbatim>\<open>catch\<close> block writes to the console.
\<close>

definition deliver :: "event_key \<Rightarrow> listener \<Rightarrow> listener list
    \<Rightarrow> 'e outcome \<times> bus \<times> ('p, 'e, 'w) outside
    \<Rightarrow> 'e outcome \<times> listener list \<times> bus \<times> ('p, 'e, 'w) outside" where
  "deliver event listener toRemove res =
     (case res of
        (Returns, b, out) \<Rightarrow>
          (Returns, (if l_once listener then toRemove @ [listener] else toRemove), b, out)
      | (Throws err, b, out) \<Rightarrow>
          (Returns, toRemove, b, out\<lparr>console := console out @ [(event, err)]\<rparr>))"

text \<open>
  A callback may call the bus, and \<^verbatim>\<open>emit\<close> among its methods. Running the program
  of a callback (\<open>exec\<close>) and performing an operation (\<open>step\<close>) are therefore defined
  for a given \<open>emit\<close>, the one of the bus in the end. No method of the bus throws
  (for \<^verbatim>\<open>emit\<close> this is \<open>emit_Returns\<close> below), so a program that has called the bus
  always goes on.
\<close>

type_synonym ('p, 'e, 'w) emitter =
  "event_key \<Rightarrow> 'p \<Rightarrow> bus \<Rightarrow> ('p, 'e, 'w) outside
     \<Rightarrow> ('e outcome \<times> bus \<times> ('p, 'e, 'w) outside) option"

fun step :: "('p, 'e, 'w) emitter \<Rightarrow> 'p operation \<Rightarrow> bus \<times> ('p, 'e, 'w) outside
    \<Rightarrow> (bus \<times> ('p, 'e, 'w) outside) option" where
  "step em (On k cb ctx) (b, out) = Some (snd (on k cb ctx b), out)"
| "step em (Once k cb ctx) (b, out) = Some (snd (once k cb ctx b), out)"
| "step em (Unsubscribe k cb ctx) (b, out) = Some (on_unsubscribe k cb ctx b, out)"
| "step em (UnsubscribeOnce k cb ctx) (b, out) = Some (once_unsubscribe k cb ctx b, out)"
| "step em (Off k cbo ctx) (b, out) = Some (off k cbo ctx b, out)"
| "step em (Clear evo) (b, out) = Some (clear evo b, out)"
| "step em (Emit k p) (b, out) =
     (case em k p b out of
        None \<Rightarrow> None
      | Some (r, b', out') \<Rightarrow> Some (b', out'))"

primrec exec :: "('p, 'e, 'w) emitter \<Rightarrow> ('p, 'e, 'w) prog \<Rightarrow> bus \<times> ('p, 'e, 'w) outside
    \<Rightarrow> ('e outcome \<times> bus \<times> ('p, 'e, 'w) outside) option" where
  "exec em (Finish r w) st = Some (r, fst st, (snd st)\<lparr>world := w\<rparr>)"
| "exec em (Perform w op cont) st =
     (case step em op (fst st, (snd st)\<lparr>world := w\<rparr>) of
        None \<Rightarrow> None
      | Some st' \<Rightarrow> exec em (cont (fst st') (world (snd st'))) st')"

text \<open>
  \<^verbatim>\<open>eventListeners.forEach\<close> iterates over the set itself, not over a copy: it visits
  the elements in the order of the set, those added during the iteration included, and
  it does not visit an element that is deleted before its turn. No listener object is
  ever added to a set twice, so the next element to visit is the first element of the
  set that has not been visited (\<open>visited\<close> holds the identities of those that have).

  A callback may subscribe a listener like itself to the set being iterated, or emit the
  event that called it: the code does not return then. \<open>forEach\<close> takes the number of
  elements it may visit, \<open>emit\<close> that number and the depth to which emissions may be
  nested, and they give \<open>None\<close> when it does not suffice. What they return when it
  suffices does not depend on the number (\<open>emit_mono\<close> below).
\<close>

primrec forEach :: "nat \<Rightarrow> ('p, 'e, 'w) emitter \<Rightarrow> ('p, 'e, 'w) behaviour \<Rightarrow> event_key \<Rightarrow> 'p
    \<Rightarrow> nat \<Rightarrow> nat list \<Rightarrow> listener list \<times> bus \<times> ('p, 'e, 'w) outside
    \<Rightarrow> ('e outcome \<times> listener list \<times> bus \<times> ('p, 'e, 'w) outside) option" where
  "forEach 0 em beh event p eventListeners visited st = None"
| "forEach (Suc n) em beh event p eventListeners visited st =
     (case st of (toRemove, b, out) \<Rightarrow>
        (case List.find (\<lambda>l. l_id l \<notin> set visited) (content b eventListeners) of
           None \<Rightarrow> Some (Returns, toRemove, b, out)
         | Some listener \<Rightarrow>
             (case exec em (beh (l_callback listener) (l_context listener) p b (world out))
                     (b, out\<lparr>calls := calls out @ [invocation_of p listener]\<rparr>) of
                None \<Rightarrow> None
              | Some res \<Rightarrow>
                  (case deliver event listener toRemove res of
                     (Throws e, st') \<Rightarrow> Some (Throws e, st')
                   | (Returns, st') \<Rightarrow>
                       forEach n em beh event p eventListeners (l_id listener # visited) st'))))"

primrec emit :: "nat \<Rightarrow> ('p, 'e, 'w) behaviour \<Rightarrow> ('p, 'e, 'w) emitter" where
  "emit 0 beh event p b out = None"
| "emit (Suc n) beh event p b out =
     (case map_of (listeners b) event of
        None \<Rightarrow> Some (Returns, b, out)
      | Some eventListeners \<Rightarrow>
          (case forEach n (emit n beh) beh event p eventListeners [] ([], b, out) of
             None \<Rightarrow> None
           | Some (Throws e, toRemove, b', out') \<Rightarrow> Some (Throws e, b', out')
           | Some (Returns, toRemove, b', out') \<Rightarrow>
               (let s = fold set_delete toRemove (content b' eventListeners);
                    b'' = b'\<lparr>sets := AList.update eventListeners s (sets b')\<rparr>
                in Some (Returns,
                     (if length s = 0
                      then b''\<lparr>listeners := AList.delete event (listeners b'')\<rparr>
                      else b''),
                     out'))))"

section \<open>Sequences of operations\<close>

text \<open>A caller of the bus performs operations one after the other.\<close>

primrec run :: "nat \<Rightarrow> ('p, 'e, 'w) behaviour \<Rightarrow> 'p operation list
    \<Rightarrow> bus \<times> ('p, 'e, 'w) outside \<Rightarrow> (bus \<times> ('p, 'e, 'w) outside) option" where
  "run n beh [] st = Some st"
| "run n beh (op # ops) st =
     (case step (emit n beh) op st of
        None \<Rightarrow> None
      | Some st' \<Rightarrow> run n beh ops st')"

section \<open>Notions used to state the properties\<close>

text \<open>The listeners registered under a key, in the order of the set; none for an absent key.\<close>

definition listeners_of :: "bus \<Rightarrow> event_key \<Rightarrow> listener list" where
  "listeners_of b event =
     (case map_of (listeners b) event of None \<Rightarrow> [] | Some eventListeners \<Rightarrow> content b eventListeners)"

text \<open>
  The invariant of the bus. The set of a key was allocated before the next one to come,
  it is not empty, its listener objects are distinct and were allocated before the next
  one to come, and it is the set of this key only.
\<close>

definition bus_inv :: "bus \<Rightarrow> bool" where
  "bus_inv b =
     list_all (\<lambda>k. case map_of (listeners b) k of
                      None \<Rightarrow> True
                    | Some eventListeners \<Rightarrow>
                        eventListeners < next_set b \<and>
                        content b eventListeners \<noteq> [] \<and>
                        distinct (map l_id (content b eventListeners)) \<and>
                        list_all (\<lambda>l. l_id l < next_id b) (content b eventListeners) \<and>
                        list_all (\<lambda>k'. k' = k \<or> map_of (listeners b) k' \<noteq> Some eventListeners)
                          (map fst (listeners b)))
       (map fst (listeners b))"

text \<open>
  The end of \<^verbatim>\<open>emit\<close>, of \<^verbatim>\<open>off\<close> with a callback and of the unsubscribe
  functions: the set at the address has new elements, and the key is deleted when the set
  is empty.
\<close>

definition put_back :: "event_key \<Rightarrow> nat \<Rightarrow> listener list \<Rightarrow> bus \<Rightarrow> bus" where
  "put_back event eventListeners s b =
     (let b' = b\<lparr>sets := AList.update eventListeners s (sets b)\<rparr>
      in if length s = 0
         then b'\<lparr>listeners := AList.delete event (listeners b')\<rparr>
         else b')"

text \<open>
  From one state of the bus to a later one: the counters do not go back, and a set that
  was there is the set of a key only if it was the set of that key before.
\<close>

definition grows :: "bus \<Rightarrow> bus \<Rightarrow> bool" where
  "grows b b' \<longleftrightarrow>
     next_id b \<le> next_id b' \<and> next_set b \<le> next_set b' \<and>
     (\<forall>k s. s < next_set b \<longrightarrow> map_of (listeners b') k = Some s \<longrightarrow>
        map_of (listeners b) k = Some s)"

text \<open>No listener under the key has this callback and a context identical to this one.\<close>

definition unmatched :: "event_key \<Rightarrow> callback \<Rightarrow> context_val \<Rightarrow> bus \<Rightarrow> bool" where
  "unmatched k cb ctx b =
     list_all (\<lambda>l. \<not> (l_callback l = cb \<and> strict_eq (l_context l) ctx)) (listeners_of b k)"

text \<open>Every operation that the program performs on the bus satisfies \<open>A\<close>.\<close>

primrec performs_only :: "('p operation \<Rightarrow> bool) \<Rightarrow> ('p, 'e, 'w) prog \<Rightarrow> bool" where
  "performs_only A (Finish r w) = True"
| "performs_only A (Perform w op cont) = (A op \<and> (\<forall>b w'. performs_only A (cont b w')))"

text \<open>
  What a relation between an earlier and a later state of the bus needs in order to hold
  along everything that the bus and the callbacks do with operations that satisfy \<open>A\<close>.
\<close>

definition stable :: "(bus \<Rightarrow> bus \<Rightarrow> bool) \<Rightarrow> ('p operation \<Rightarrow> bool) \<Rightarrow> bool" where
  "stable R A \<longleftrightarrow>
     (\<forall>b. R b b) \<and>
     (\<forall>a b c. R a b \<longrightarrow> R b c \<longrightarrow> R a c) \<and>
     (\<forall>k cb ctx b. A (On k cb ctx) \<longrightarrow> R b (snd (on k cb ctx b))) \<and>
     (\<forall>k cb ctx b. A (Once k cb ctx) \<longrightarrow> R b (snd (once k cb ctx b))) \<and>
     (\<forall>k cb ctx b. A (Unsubscribe k cb ctx) \<longrightarrow> R b (on_unsubscribe k cb ctx b)) \<and>
     (\<forall>k cb ctx b. A (UnsubscribeOnce k cb ctx) \<longrightarrow> R b (once_unsubscribe k cb ctx b)) \<and>
     (\<forall>k cbo ctx b. A (Off k cbo ctx) \<longrightarrow> R b (off k cbo ctx b)) \<and>
     (\<forall>evo b. A (Clear evo) \<longrightarrow> R b (clear evo b)) \<and>
     (\<forall>b0 b k s toRemove. map_of (listeners b0) k = Some s \<longrightarrow> R b0 b \<longrightarrow>
        R b0 (put_back k s (fold set_delete toRemove (content b s)) b))"

text \<open>The relation holds from before to after every emission that returns.\<close>

definition keeps :: "(bus \<Rightarrow> bus \<Rightarrow> bool) \<Rightarrow> ('p, 'e, 'w) emitter \<Rightarrow> bool" where
  "keeps R em \<longleftrightarrow> (\<forall>k p b out r b' out'. em k p b out = Some (r, b', out') \<longrightarrow> R b b')"

text \<open>Whatever the first emitter returns, the second returns too.\<close>

definition extends :: "('p, 'e, 'w) emitter \<Rightarrow> ('p, 'e, 'w) emitter \<Rightarrow> bool" where
  "extends em em' \<longleftrightarrow> (\<forall>k p b out r. em k p b out = Some r \<longrightarrow> em' k p b out = Some r)"

text \<open>
  The delivery of an emission when the callbacks of the listeners do not call the bus:
  each call is a program that finishes at once, and the bus stays as it is.
\<close>

primrec delivered :: "('p, 'e, 'w) behaviour \<Rightarrow> event_key \<Rightarrow> 'p \<Rightarrow> bus \<Rightarrow> listener list
    \<Rightarrow> listener list \<times> ('p, 'e, 'w) outside \<Rightarrow> listener list \<times> ('p, 'e, 'w) outside" where
  "delivered beh event p b [] st = st"
| "delivered beh event p b (l # ls) st =
     delivered beh event p b ls
       (case deliver event l (fst st)
               (result (beh (l_callback l) (l_context l) p b (world (snd st))), b,
                (snd st)\<lparr>calls := calls (snd st) @ [invocation_of p l],
                         world := final (beh (l_callback l) (l_context l) p b (world (snd st)))\<rparr>)
        of (r, toRemove, b', out') \<Rightarrow> (toRemove, out'))"

text \<open>None of the callbacks of the listeners calls the bus when called with the payload.\<close>

definition bus_free :: "('p, 'e, 'w) behaviour \<Rightarrow> 'p \<Rightarrow> bus \<Rightarrow> listener list \<Rightarrow> bool" where
  "bus_free beh p b ls \<longleftrightarrow>
     (\<forall>l \<in> set ls. \<forall>w. is_Finish (beh (l_callback l) (l_context l) p b w))"

subsection \<open>Callbacks and states of the examples\<close>

text \<open>
  Payloads are numbers and errors are messages. With \<open>quiet\<close> the callbacks keep no
  state and every function returns.
\<close>

definition quiet :: "(nat, string, unit) behaviour" where
  "quiet cb ctx p b w = Finish Returns w"

definition out0 :: "(nat, string, unit) outside" where
  "out0 = \<lparr>world = (), calls = [], console = []\<rparr>"

text \<open>
  With the other behaviours the outside state is the number of calls of callbacks made
  so far: every call adds one to it. With \<open>counting\<close>, every function returns. With
  \<open>failing\<close>, the function \<open>Fn 0\<close> throws whenever it is called and every other function
  returns. With \<open>meddling op r\<close>, the function \<open>Fn 0\<close> performs the operation \<open>op\<close> on
  the bus and ends with the outcome \<open>r\<close>, and every other function returns.
\<close>

definition counting :: "(nat, string, nat) behaviour" where
  "counting cb ctx p b w = Finish Returns (Suc w)"

definition failing :: "(nat, string, nat) behaviour" where
  "failing cb ctx p b w =
     (if cb = Fn 0 then Finish (Throws ''Test error'') (Suc w) else Finish Returns (Suc w))"

definition meddling :: "nat operation \<Rightarrow> string outcome \<Rightarrow> (nat, string, nat) behaviour" where
  "meddling op r cb ctx p b w =
     (if cb = Fn 0 then Perform (Suc w) op (\<lambda>b' w'. Finish r w') else Finish Returns (Suc w))"

definition count0 :: "(nat, string, nat) outside" where
  "count0 = \<lparr>world = 0, calls = [], console = []\<rparr>"

text \<open>
  With \<open>reemitting\<close>, the function \<open>Fn 0\<close> emits the test event again with the payload
  it was called with, unless two calls have been made already, and every other function
  returns.
\<close>

definition reemitting :: "(nat, string, nat) behaviour" where
  "reemitting cb ctx p b w =
     (if cb = Fn 0 \<and> w < 2
      then Perform (Suc w) (Emit (Str ''test'') p) (\<lambda>b' w'. Finish Returns w')
      else Finish Returns (Suc w))"

definition test_event :: event_key where
  "test_event = Str ''test''"


definition two_contexts :: bus where
  "two_contexts =
     snd (on test_event (Fn 1) (Ref 2) (snd (on test_event (Fn 1) (Ref 1) new_EventBus)))"

section \<open>Properties of the operations\<close>

text \<open>The equations with which the model is evaluated on the examples.\<close>

lemmas bus_simps = on_def once_def on_unsubscribe_def once_unsubscribe_def
  off_def clear_def new_EventBus_def set_add_def set_delete_def deliver_def content_def
  invocation_of_def listenerCount_def hasListeners_def eventNames_def listeners_of_def
  strict_eq_def out0_def failing_def quiet_def meddling_def test_event_def counting_def
  count0_def reemitting_def emit.simps

lemma once_unsubscribe_eq: "once_unsubscribe = on_unsubscribe"
  by (intro ext) (simp add: once_unsubscribe_def on_unsubscribe_def)

lemma on_handle: "fst (on k cb ctx b) = on_unsubscribe k cb ctx"
  by (simp add: on_def Let_def)

lemma once_handle: "fst (once k cb ctx b) = once_unsubscribe k cb ctx"
  by (simp add: once_def Let_def)

subsection \<open>Deleting from a set while iterating over it\<close>

lemma fold_delete_filter:
  "fold (\<lambda>l s. if P l then set_delete l s else s) xs acc =
     filter (\<lambda>x. l_id x \<notin> l_id ` {l \<in> set xs. P l}) acc"
proof (induction xs arbitrary: acc)
  case Nil
  show ?case by simp
next
  case (Cons a xs)
  show ?case
    by (auto simp: Cons.IH set_delete_def intro!: filter_cong)
qed

lemma fold_delete_self:
  assumes "distinct (map l_id s)"
  shows "fold (\<lambda>l s. if P l then set_delete l s else s) s s = filter (\<lambda>l. \<not> P l) s"
proof -
  have inj: "inj_on l_id (set s)" using assms by (simp add: distinct_map)
  have "filter (\<lambda>x. l_id x \<notin> l_id ` {l \<in> set s. P l}) s = filter (\<lambda>l. \<not> P l) s"
    by (rule filter_cong) (use inj in \<open>auto dest: inj_onD\<close>)
  then show ?thesis by (simp add: fold_delete_filter)
qed

lemma fold_set_delete:
  "fold set_delete rs s = filter (\<lambda>x. l_id x \<notin> l_id ` set rs) s"
  by (induction rs arbitrary: s) (auto simp: set_delete_def intro!: filter_cong)

subsection \<open>The invariant\<close>

lemma bus_inv_iff:
  "bus_inv b \<longleftrightarrow>
     (\<forall>k s. map_of (listeners b) k = Some s \<longrightarrow>
        s < next_set b \<and> content b s \<noteq> [] \<and> distinct (map l_id (content b s)) \<and>
        (\<forall>l \<in> set (content b s). l_id l < next_id b) \<and>
        (\<forall>k'. map_of (listeners b) k' = Some s \<longrightarrow> k' = k))"
  (is "?L \<longleftrightarrow> ?R")
proof
  assume inv: ?L
  show ?R
  proof (intro allI impI)
    fix k s
    assume ks: "map_of (listeners b) k = Some s"
    then have k: "k \<in> set (map fst (listeners b))"
      by (metis map_of_eq_None_iff option.distinct(1) set_map)
    have dom: "map_of (listeners b) k' = Some s \<Longrightarrow> k' \<in> set (map fst (listeners b))" for k'
      by (metis map_of_eq_None_iff option.distinct(1) set_map)
    have "\<forall>k \<in> set (map fst (listeners b)).
            case map_of (listeners b) k of
              None \<Rightarrow> True
            | Some s \<Rightarrow> s < next_set b \<and> content b s \<noteq> [] \<and>
                distinct (map l_id (content b s)) \<and>
                (\<forall>l \<in> set (content b s). l_id l < next_id b) \<and>
                (\<forall>k' \<in> set (map fst (listeners b)).
                    k' = k \<or> map_of (listeners b) k' \<noteq> Some s)"
      using inv by (simp only: bus_inv_def list_all_iff)
    from bspec[OF this k] ks
    have p: "s < next_set b \<and> content b s \<noteq> [] \<and>
                distinct (map l_id (content b s)) \<and>
                (\<forall>l \<in> set (content b s). l_id l < next_id b) \<and>
                (\<forall>k' \<in> set (map fst (listeners b)).
                    k' = k \<or> map_of (listeners b) k' \<noteq> Some s)"
      by simp
    then have "\<forall>k'. map_of (listeners b) k' = Some s \<longrightarrow> k' = k"
      using dom by blast
    with p show "s < next_set b \<and> content b s \<noteq> [] \<and> distinct (map l_id (content b s)) \<and>
        (\<forall>l \<in> set (content b s). l_id l < next_id b) \<and>
        (\<forall>k'. map_of (listeners b) k' = Some s \<longrightarrow> k' = k)"
      by blast
  qed
next
  assume ?R
  then show ?L
    by (auto simp: bus_inv_def list_all_iff split: option.splits)
qed

lemma bus_invD:
  assumes "bus_inv b" "map_of (listeners b) k = Some s"
  shows "s < next_set b" "content b s \<noteq> []" "distinct (map l_id (content b s))"
    "\<forall>l \<in> set (content b s). l_id l < next_id b"
    "map_of (listeners b) k' = Some s \<Longrightarrow> k' = k"
  using assms by (auto simp: bus_inv_iff)

lemma bus_inv_stored:
  assumes "bus_inv b" "map_of (listeners b) k = Some s"
  shows "map_of (sets b) s = Some (content b s)"
  using bus_invD(2)[OF assms] by (auto simp: content_def split: option.splits)

lemma new_EventBus_inv: "bus_inv new_EventBus"
  by (simp add: bus_inv_def new_EventBus_def)

lemma grows_refl: "grows b b"
  by (simp add: grows_def)

lemma grows_trans: "grows a b \<Longrightarrow> grows b c \<Longrightarrow> grows a c"
  unfolding grows_def by (meson le_trans less_le_trans)

subsection \<open>Putting a set back\<close>

lemma next_put_back [simp]:
  "next_id (put_back k s xs b) = next_id b" "next_set (put_back k s xs b) = next_set b"
  by (simp_all add: put_back_def Let_def)

lemma map_of_put_back:
  "map_of (listeners (put_back k s xs b)) k' =
     (if k' = k \<and> xs = [] then None else map_of (listeners b) k')"
  by (simp add: put_back_def Let_def delete_conv')

lemma content_put_back:
  "content (put_back k s xs b) s' = (if s' = s then xs else content b s')"
  by (simp add: put_back_def Let_def content_def update_conv')

lemma put_back_same:
  assumes "map_of (sets b) s = Some xs" "xs \<noteq> []"
  shows "put_back k s xs b = b"
  using assms by (simp add: put_back_def Let_def update_triv)

lemma grows_put_back: "grows b (put_back k s xs b)"
  by (simp add: grows_def map_of_put_back)

lemma bus_inv_put_back:
  assumes inv: "bus_inv b"
    and only: "\<And>k'. map_of (listeners b) k' = Some s \<Longrightarrow> k' = k"
    and xs: "set xs \<subseteq> set (content b s)" "distinct (map l_id xs)"
  shows "bus_inv (put_back k s xs b)"
  unfolding bus_inv_iff
proof (intro allI impI)
  fix k' s'
  assume a: "map_of (listeners (put_back k s xs b)) k' = Some s'"
  then have old: "map_of (listeners b) k' = Some s'" and ne: "\<not> (k' = k \<and> xs = [])"
    by (auto simp: map_of_put_back split: if_splits)
  note D = bus_invD[OF inv old]
  have c: "content (put_back k s xs b) s' \<noteq> [] \<and>
           distinct (map l_id (content (put_back k s xs b) s')) \<and>
           (\<forall>l \<in> set (content (put_back k s xs b) s'). l_id l < next_id b)"
  proof (cases "s' = s")
    case True
    with old have "k' = k" using only by simp
    with ne have "xs \<noteq> []" by simp
    moreover have "\<forall>l \<in> set xs. l_id l < next_id b" using xs(1) D(4) True by auto
    ultimately show ?thesis using True xs(2) by (simp add: content_put_back)
  next
    case False
    then show ?thesis using D by (simp add: content_put_back)
  qed
  have u: "\<forall>k''. map_of (listeners (put_back k s xs b)) k'' = Some s' \<longrightarrow> k'' = k'"
    using D(5) by (auto simp: map_of_put_back split: if_splits)
  show "s' < next_set (put_back k s xs b) \<and>
        content (put_back k s xs b) s' \<noteq> [] \<and>
        distinct (map l_id (content (put_back k s xs b) s')) \<and>
        (\<forall>l \<in> set (content (put_back k s xs b) s'). l_id l < next_id (put_back k s xs b)) \<and>
        (\<forall>k''. map_of (listeners (put_back k s xs b)) k'' = Some s' \<longrightarrow> k'' = k')"
    using c u D(1) by simp
qed

lemma bus_inv_put_back_filter:
  assumes "bus_inv b" "\<And>k'. map_of (listeners b) k' = Some s \<Longrightarrow> k' = k"
  shows "bus_inv (put_back k s (filter Q (content b s)) b)"
proof (cases "\<exists>k'. map_of (listeners b) k' = Some s")
  case True
  then obtain k' where k': "map_of (listeners b) k' = Some s" by blast
  show ?thesis
    using bus_invD(3)[OF assms(1) k']
    by (intro bus_inv_put_back assms) (auto simp: distinct_map_filter)
next
  case False
  show ?thesis
    unfolding bus_inv_iff
  proof (intro allI impI)
    fix k' s'
    assume a: "map_of (listeners (put_back k s (filter Q (content b s)) b)) k' = Some s'"
    then have old: "map_of (listeners b) k' = Some s'"
      by (auto simp: map_of_put_back split: if_splits)
    with False have ne: "s' \<noteq> s" by auto
    note D = bus_invD[OF assms(1) old]
    show "s' < next_set (put_back k s (filter Q (content b s)) b) \<and>
        content (put_back k s (filter Q (content b s)) b) s' \<noteq> [] \<and>
        distinct (map l_id (content (put_back k s (filter Q (content b s)) b) s')) \<and>
        (\<forall>l \<in> set (content (put_back k s (filter Q (content b s)) b) s').
            l_id l < next_id (put_back k s (filter Q (content b s)) b)) \<and>
        (\<forall>k''. map_of (listeners (put_back k s (filter Q (content b s)) b)) k'' = Some s' \<longrightarrow>
            k'' = k')"
      using D ne by (auto simp: content_put_back map_of_put_back split: if_splits)
  qed
qed

lemma listeners_of_put_back:
  assumes "bus_inv b" "map_of (listeners b) k = Some s"
  shows "listeners_of (put_back k s xs b) k' = (if k' = k then xs else listeners_of b k')"
proof (cases "k' = k")
  case True
  then show ?thesis using assms(2)
    by (simp add: listeners_of_def map_of_put_back content_put_back)
next
  case False
  show ?thesis
  proof (cases "map_of (listeners b) k'")
    case None
    then show ?thesis using False by (simp add: listeners_of_def map_of_put_back)
  next
    case (Some s')
    have "s' \<noteq> s" using bus_invD(5)[OF assms, of k'] Some False by auto
    then show ?thesis using False Some
      by (simp add: listeners_of_def map_of_put_back content_put_back)
  qed
qed

subsection \<open>Unsubscribing and \<open>off\<close>\<close>

lemma on_unsubscribe_None:
  "map_of (listeners b) k = None \<Longrightarrow> on_unsubscribe k cb ctx b = b"
  by (simp add: on_unsubscribe_def)

lemma on_unsubscribe_filter:
  assumes "map_of (listeners b) k = Some s"
  shows "on_unsubscribe k cb ctx b =
           put_back k s (filter (\<lambda>x. l_id x \<notin> l_id ` {l \<in> set (content b s).
              l_callback l = cb \<and> strict_eq (l_context l) ctx}) (content b s)) b"
  using assms by (simp add: on_unsubscribe_def put_back_def Let_def fold_delete_filter)

lemma on_unsubscribe_Some:
  assumes "map_of (listeners b) k = Some s" "distinct (map l_id (content b s))"
  shows "on_unsubscribe k cb ctx b =
           put_back k s (filter (\<lambda>l. \<not> (l_callback l = cb \<and> strict_eq (l_context l) ctx))
             (content b s)) b"
  using assms by (simp add: on_unsubscribe_def put_back_def Let_def fold_delete_self)

lemma off_None: "map_of (listeners b) k = None \<Longrightarrow> off k cbo ctx b = b"
  by (simp add: off_def)

lemma off_all:
  "off k None ctx b = b\<lparr>listeners := AList.delete k (listeners b)\<rparr>"
proof (cases "map_of (listeners b) k")
  case None
  then have "AList.delete k (listeners b) = listeners b"
    by (simp add: map_of_eq_None_iff)
  then show ?thesis using None by (simp add: off_def)
next
  case (Some s)
  then show ?thesis by (simp add: off_def)
qed

lemma off_filter:
  assumes "map_of (listeners b) k = Some s"
  shows "off k (Some cb) ctx b =
           put_back k s (filter (\<lambda>x. l_id x \<notin> l_id ` {l \<in> set (content b s). l_callback l = cb \<and>
              (ctx = Null \<or> strict_eq (l_context l) ctx)}) (content b s)) b"
  using assms by (simp add: off_def put_back_def Let_def fold_delete_filter)

lemma off_Some:
  assumes "map_of (listeners b) k = Some s" "distinct (map l_id (content b s))"
  shows "off k (Some cb) ctx b =
           put_back k s (filter (\<lambda>l. \<not> (l_callback l = cb \<and>
              (ctx = Null \<or> strict_eq (l_context l) ctx))) (content b s)) b"
  using assms by (simp add: off_def put_back_def Let_def fold_delete_self)

lemma bus_inv_delete:
  assumes "bus_inv b"
  shows "bus_inv (b\<lparr>listeners := AList.delete k (listeners b)\<rparr>)"
  using assms unfolding bus_inv_iff
  by (auto simp: delete_conv' content_def split: if_splits)

lemma grows_delete: "grows b (b\<lparr>listeners := AList.delete k (listeners b)\<rparr>)"
  by (auto simp: grows_def delete_conv' split: if_splits)

lemma on_unsubscribe_inv:
  assumes "bus_inv b"
  shows "bus_inv (on_unsubscribe k cb ctx b)"
proof (cases "map_of (listeners b) k")
  case None
  then show ?thesis using assms by (simp add: on_unsubscribe_None)
next
  case (Some s)
  show ?thesis
    unfolding on_unsubscribe_filter[OF Some]
    by (rule bus_inv_put_back_filter[OF assms]) (rule bus_invD(5)[OF assms Some])
qed

lemma on_unsubscribe_grows: "grows b (on_unsubscribe k cb ctx b)"
  by (cases "map_of (listeners b) k")
     (simp_all add: on_unsubscribe_None on_unsubscribe_filter grows_refl grows_put_back)

lemma off_inv:
  assumes "bus_inv b"
  shows "bus_inv (off k cbo ctx b)"
proof (cases cbo)
  case None
  then show ?thesis using assms by (simp add: off_all bus_inv_delete)
next
  case cb: (Some cb)
  show ?thesis
  proof (cases "map_of (listeners b) k")
    case None
    then show ?thesis using assms by (simp add: off_None)
  next
    case (Some s)
    show ?thesis
      unfolding cb off_filter[OF Some]
      by (rule bus_inv_put_back_filter[OF assms]) (rule bus_invD(5)[OF assms Some])
  qed
qed

lemma off_grows: "grows b (off k cbo ctx b)"
proof (cases cbo)
  case None
  then show ?thesis by (simp add: off_all grows_delete)
next
  case (Some cb)
  then show ?thesis
    by (cases "map_of (listeners b) k")
       (simp_all add: off_None off_filter grows_refl grows_put_back)
qed

lemma clear_inv: "bus_inv b \<Longrightarrow> bus_inv (clear evo b)"
  by (cases evo) (simp_all add: clear_def bus_inv_delete, simp add: bus_inv_def)

lemma clear_grows: "grows b (clear evo b)"
  by (cases evo) (simp_all add: clear_def grows_delete, simp add: grows_def)

subsection \<open>Subscribing\<close>

text \<open>Subscribing appends a fresh listener object, to a fresh set when the key is new.\<close>

lemma on_bus:
  assumes "bus_inv b"
  shows "snd (on k cb ctx b) =
           (case map_of (listeners b) k of
              None \<Rightarrow>
                \<lparr>listeners = AList.update k (next_set b) (listeners b),
                 sets = AList.update (next_set b)
                   [\<lparr>l_id = next_id b, l_callback = cb, l_context = ctx, l_once = False\<rparr>] (sets b),
                 next_id = Suc (next_id b), next_set = Suc (next_set b)\<rparr>
            | Some s \<Rightarrow>
                \<lparr>listeners = listeners b,
                 sets = AList.update s (content b s @
                   [\<lparr>l_id = next_id b, l_callback = cb, l_context = ctx, l_once = False\<rparr>]) (sets b),
                 next_id = Suc (next_id b), next_set = next_set b\<rparr>)"
proof (cases "map_of (listeners b) k")
  case None
  then show ?thesis by (simp add: on_def set_add_def)
next
  case (Some s)
  have "next_id b \<notin> l_id ` set (content b s)" using bus_invD(4)[OF assms Some] by auto
  then show ?thesis using Some by (simp add: on_def set_add_def)
qed

lemma once_bus:
  assumes "bus_inv b"
  shows "snd (once k cb ctx b) =
           (case map_of (listeners b) k of
              None \<Rightarrow>
                \<lparr>listeners = AList.update k (next_set b) (listeners b),
                 sets = AList.update (next_set b)
                   [\<lparr>l_id = next_id b, l_callback = cb, l_context = ctx, l_once = True\<rparr>] (sets b),
                 next_id = Suc (next_id b), next_set = Suc (next_set b)\<rparr>
            | Some s \<Rightarrow>
                \<lparr>listeners = listeners b,
                 sets = AList.update s (content b s @
                   [\<lparr>l_id = next_id b, l_callback = cb, l_context = ctx, l_once = True\<rparr>]) (sets b),
                 next_id = Suc (next_id b), next_set = next_set b\<rparr>)"
proof (cases "map_of (listeners b) k")
  case None
  then show ?thesis by (simp add: once_def set_add_def)
next
  case (Some s)
  have "next_id b \<notin> l_id ` set (content b s)" using bus_invD(4)[OF assms Some] by auto
  then show ?thesis using Some by (simp add: once_def set_add_def)
qed

text \<open>The state after a subscription, whichever of the two it was.\<close>

lemma subscribed_inv:
  assumes inv: "bus_inv b" and l: "l_id l = next_id b"
    and b': "b' = (case map_of (listeners b) k of
              None \<Rightarrow>
                \<lparr>listeners = AList.update k (next_set b) (listeners b),
                 sets = AList.update (next_set b) [l] (sets b),
                 next_id = Suc (next_id b), next_set = Suc (next_set b)\<rparr>
            | Some s \<Rightarrow>
                \<lparr>listeners = listeners b,
                 sets = AList.update s (content b s @ [l]) (sets b),
                 next_id = Suc (next_id b), next_set = next_set b\<rparr>)"
  shows "bus_inv b'" "grows b b'"
    "listeners_of b' k' = (if k' = k then listeners_of b k @ [l] else listeners_of b k')"
proof -
  have fresh: "map_of (listeners b) k'' = Some s \<Longrightarrow> s \<noteq> next_set b" for k'' s
    using bus_invD(1)[OF inv] by fastforce
  show "bus_inv b'"
  proof (cases "map_of (listeners b) k")
    case None
    show ?thesis
      unfolding bus_inv_iff
    proof (intro allI impI)
      fix k1 s1
      assume a: "map_of (listeners b') k1 = Some s1"
      show "s1 < next_set b' \<and> content b' s1 \<noteq> [] \<and> distinct (map l_id (content b' s1)) \<and>
            (\<forall>x \<in> set (content b' s1). l_id x < next_id b') \<and>
            (\<forall>k2. map_of (listeners b') k2 = Some s1 \<longrightarrow> k2 = k1)"
      proof (cases "k1 = k")
        case True
        with a None b' have s1: "s1 = next_set b" by (simp add: update_conv')
        have "\<forall>k2. map_of (listeners b') k2 = Some s1 \<longrightarrow> k2 = k1"
          using None b' s1 True fresh by (auto simp: update_conv' split: if_splits)
        then show ?thesis using None b' s1 l by (simp add: content_def update_conv')
      next
        case False
        with a None b' have old: "map_of (listeners b) k1 = Some s1" by (simp add: update_conv')
        note D = bus_invD[OF inv old]
        have ne: "s1 \<noteq> next_set b" using fresh[OF old] .
        have "\<forall>k2. map_of (listeners b') k2 = Some s1 \<longrightarrow> k2 = k1"
          using None b' ne D(5) by (auto simp: update_conv' split: if_splits)
        then show ?thesis using None b' ne D
          by (auto simp: content_def update_conv' intro: less_SucI)
      qed
    qed
  next
    case (Some s)
    note Ds = bus_invD[OF inv Some]
    show ?thesis
      unfolding bus_inv_iff
    proof (intro allI impI)
      fix k1 s1
      assume a: "map_of (listeners b') k1 = Some s1"
      with Some b' have old: "map_of (listeners b) k1 = Some s1" by simp
      note D = bus_invD[OF inv old]
      have u: "\<forall>k2. map_of (listeners b') k2 = Some s1 \<longrightarrow> k2 = k1"
        using Some b' D(5) by simp
      show "s1 < next_set b' \<and> content b' s1 \<noteq> [] \<and> distinct (map l_id (content b' s1)) \<and>
            (\<forall>x \<in> set (content b' s1). l_id x < next_id b') \<and>
            (\<forall>k2. map_of (listeners b') k2 = Some s1 \<longrightarrow> k2 = k1)"
      proof (cases "s1 = s")
        case True
        have "content b' s1 = content b s @ [l]"
          using Some b' True by (simp add: content_def update_conv')
        then show ?thesis using u Some b' D True l
          by (auto intro: less_SucI)
      next
        case False
        have "content b' s1 = content b s1"
          using Some b' False by (simp add: content_def update_conv')
        then show ?thesis using u Some b' D by (auto intro: less_SucI)
      qed
    qed
  qed
  show "grows b b'"
    using b' fresh by (cases "map_of (listeners b) k")
      (auto simp: grows_def update_conv' split: if_splits)
  show "listeners_of b' k' = (if k' = k then listeners_of b k @ [l] else listeners_of b k')"
  proof (cases "map_of (listeners b) k")
    case None
    show ?thesis
    proof (cases "k' = k")
      case True
      then show ?thesis using None b' by (simp add: listeners_of_def content_def update_conv')
    next
      case False
      then show ?thesis using None b' fresh[of k']
        by (cases "map_of (listeners b) k'")
           (auto simp: listeners_of_def content_def update_conv')
    qed
  next
    case (Some s)
    show ?thesis
    proof (cases "k' = k")
      case True
      then show ?thesis using Some b' by (simp add: listeners_of_def content_def update_conv')
    next
      case False
      then show ?thesis using Some b' bus_invD(5)[OF inv Some, of k']
        by (cases "map_of (listeners b) k'")
           (auto simp: listeners_of_def content_def update_conv')
    qed
  qed
qed

lemma on_inv: "bus_inv b \<Longrightarrow> bus_inv (snd (on k cb ctx b))"
  by (rule subscribed_inv(1)[OF _ _ on_bus]) simp_all

lemma once_inv: "bus_inv b \<Longrightarrow> bus_inv (snd (once k cb ctx b))"
  by (rule subscribed_inv(1)[OF _ _ once_bus]) simp_all

lemma on_grows: "bus_inv b \<Longrightarrow> grows b (snd (on k cb ctx b))"
  by (rule subscribed_inv(2)[OF _ _ on_bus]) simp_all

lemma once_grows: "bus_inv b \<Longrightarrow> grows b (snd (once k cb ctx b))"
  by (rule subscribed_inv(2)[OF _ _ once_bus]) simp_all

lemma listeners_of_on:
  assumes "bus_inv b"
  shows "listeners_of (snd (on k cb ctx b)) k' =
           (if k' = k then listeners_of b k @
               [\<lparr>l_id = next_id b, l_callback = cb, l_context = ctx, l_once = False\<rparr>]
            else listeners_of b k')"
  by (rule subscribed_inv(3)[OF assms _ on_bus[OF assms]]) simp

lemma listeners_of_once:
  assumes "bus_inv b"
  shows "listeners_of (snd (once k cb ctx b)) k' =
           (if k' = k then listeners_of b k @
               [\<lparr>l_id = next_id b, l_callback = cb, l_context = ctx, l_once = True\<rparr>]
            else listeners_of b k')"
  by (rule subscribed_inv(3)[OF assms _ once_bus[OF assms]]) simp

lemma next_id_on [simp]: "next_id (snd (on k cb ctx b)) = Suc (next_id b)"
  by (simp add: on_def Let_def split: option.splits)

lemma next_id_once [simp]: "next_id (snd (once k cb ctx b)) = Suc (next_id b)"
  by (simp add: once_def Let_def split: option.splits)

subsection \<open>The listeners under a key\<close>

lemma listeners_of_Some: "map_of (listeners b) k = Some s \<Longrightarrow> listeners_of b k = content b s"
  by (simp add: listeners_of_def)

lemma listeners_of_None: "map_of (listeners b) k = None \<Longrightarrow> listeners_of b k = []"
  by (simp add: listeners_of_def)


lemma bus_inv_listeners_of:
  assumes "bus_inv b"
  shows "distinct (map l_id (listeners_of b k))" "\<forall>l \<in> set (listeners_of b k). l_id l < next_id b"
  using bus_invD[OF assms] by (cases "map_of (listeners b) k"; simp add: listeners_of_def)+

lemma listeners_of_off_Some:
  assumes "bus_inv b"
  shows "listeners_of (off k (Some cb) ctx b) k' =
           (if k' = k
            then filter (\<lambda>l. \<not> (l_callback l = cb \<and> (ctx = Null \<or> strict_eq (l_context l) ctx)))
                   (listeners_of b k)
            else listeners_of b k')"
proof (cases "map_of (listeners b) k")
  case None
  then show ?thesis by (simp add: off_None listeners_of_None)
next
  case (Some s)
  then show ?thesis
    using bus_invD(3)[OF assms Some]
    by (simp add: off_Some listeners_of_put_back[OF assms Some] listeners_of_Some)
qed

lemma listeners_of_on_unsubscribe:
  assumes "bus_inv b"
  shows "listeners_of (on_unsubscribe k cb ctx b) k' =
           (if k' = k
            then filter (\<lambda>l. \<not> (l_callback l = cb \<and> strict_eq (l_context l) ctx))
                   (listeners_of b k)
            else listeners_of b k')"
proof (cases "map_of (listeners b) k")
  case None
  then show ?thesis by (simp add: on_unsubscribe_None listeners_of_None)
next
  case (Some s)
  then show ?thesis
    using bus_invD(3)[OF assms Some]
    by (simp add: on_unsubscribe_Some listeners_of_put_back[OF assms Some] listeners_of_Some)
qed

lemma eventNames_iff: "k \<in> set (eventNames b) \<longleftrightarrow> map_of (listeners b) k \<noteq> None"
  by (simp add: eventNames_def map_of_eq_None_iff)

lemma bus_inv_keys:
  assumes "bus_inv b"
  shows "k \<in> set (eventNames b) \<longleftrightarrow> hasListeners b k"
  using bus_invD(2)[OF assms, of k]
  by (cases "map_of (listeners b) k")
     (simp_all add: eventNames_iff hasListeners_def listenerCount_def)

lemma not_hasListeners:
  assumes "bus_inv b"
  shows "\<not> hasListeners b k \<longleftrightarrow> map_of (listeners b) k = None"
  using bus_inv_keys[OF assms, of k] by (auto simp add: eventNames_iff)

subsection \<open>Relations that hold along everything the bus and the callbacks do\<close>

lemma stable_refl: "stable R A \<Longrightarrow> R b b"
  by (simp add: stable_def)

lemma stable_trans:
  assumes "stable R A" "R a b" "R b c"
  shows "R a c"
proof -
  from assms(1) have "\<forall>a b c. R a b \<longrightarrow> R b c \<longrightarrow> R a c" by (simp add: stable_def)
  with assms(2,3) show ?thesis by blast
qed

lemma stable_tail:
  assumes "stable R A" "map_of (listeners b0) k = Some s" "R b0 b"
  shows "R b0 (put_back k s (fold set_delete toRemove (content b s)) b)"
proof -
  from assms(1) have "\<forall>b0 b k s toRemove. map_of (listeners b0) k = Some s \<longrightarrow> R b0 b \<longrightarrow>
        R b0 (put_back k s (fold set_delete toRemove (content b s)) b)"
    by (simp add: stable_def)
  with assms(2,3) show ?thesis by blast
qed

lemma stable_ops:
  assumes "stable R A"
  shows "A (On k cb ctx) \<Longrightarrow> R b (snd (on k cb ctx b))"
    "A (Once k cb ctx) \<Longrightarrow> R b (snd (once k cb ctx b))"
    "A (Unsubscribe k cb ctx) \<Longrightarrow> R b (on_unsubscribe k cb ctx b)"
    "A (UnsubscribeOnce k cb ctx) \<Longrightarrow> R b (once_unsubscribe k cb ctx b)"
    "A (Off k cbo ctx) \<Longrightarrow> R b (off k cbo ctx b)"
    "A (Clear evo) \<Longrightarrow> R b (clear evo b)"
  using assms by (simp_all add: stable_def)

lemma keepsD: "keeps R em \<Longrightarrow> em k p b out = Some (r, b', out') \<Longrightarrow> R b b'"
  unfolding keeps_def by blast

lemma step_rel:
  assumes st: "stable R A"
    and em: "keeps R em"
    and op: "A op" "step em op (b, out) = Some (b', out')"
  shows "R b b'"
proof (cases op)
  case (Emit k p)
  with op(2) obtain r where "em k p b out = Some (r, b', out')"
    by (auto split: option.splits)
  with em show ?thesis by (rule keepsD)
qed (use op stable_ops[OF st] in auto)

lemma exec_rel:
  assumes st: "stable R A"
    and em: "keeps R em"
  shows "performs_only A pr \<Longrightarrow> exec em pr s = Some (r, b', out') \<Longrightarrow> R (fst s) b'"
proof (induction pr arbitrary: s)
  case (Finish r0 w)
  then have "b' = fst s" by simp
  then show ?case using stable_refl[OF st] by simp
next
  case (Perform w op cont)
  from Perform.prems(2) obtain s1 where
    s1: "step em op (fst s, (snd s)\<lparr>world := w\<rparr>) = Some s1" and
    e: "exec em (cont (fst s1) (world (snd s1))) s1 = Some (r, b', out')"
    by (auto split: option.splits)
  have "A op" using Perform.prems(1) by simp
  moreover have "step em op (fst s, (snd s)\<lparr>world := w\<rparr>) = Some (fst s1, snd s1)"
    using s1 by simp
  ultimately have r1: "R (fst s) (fst s1)"
    by (rule step_rel[OF st em])
  have "performs_only A (cont (fst s1) (world (snd s1)))"
    using Perform.prems(1) by simp
  from Perform.IH[OF _ _ this e] have "R (fst s1) b'" by blast
  with r1 show ?case by (rule stable_trans[OF st])
qed

lemma deliver_Returns: "fst (deliver ev l tr res) = Returns"
  by (cases res rule: prod_cases3; cases "fst res") (auto simp: deliver_def)

lemma deliver_bus: "fst (snd (snd (deliver ev l tr res))) = fst (snd res)"
  by (cases res rule: prod_cases3; cases "fst res") (auto simp: deliver_def)

lemma forEach_rel:
  assumes st: "stable R A"
    and em: "keeps R em"
    and progs: "\<forall>cb ctx p b w. performs_only A (beh cb ctx p b w)"
  shows "forEach n em beh ev p s visited (tr, b, out) = Some (r, tr', b', out') \<Longrightarrow> R b b'"
proof (induction n arbitrary: visited tr b out)
  case 0
  then show ?case by simp
next
  case (Suc n)
  show ?case
  proof (cases "List.find (\<lambda>l. l_id l \<notin> set visited) (content b s)")
    case None
    with Suc.prems have "b' = b" by simp
    then show ?thesis using stable_refl[OF st] by simp
  next
    case (Some l)
    with Suc.prems obtain res where
      res: "exec em (beh (l_callback l) (l_context l) p b (world out))
              (b, out\<lparr>calls := calls out @ [invocation_of p l]\<rparr>) = Some res"
      by (auto split: option.splits)
    obtain r1 b1 out1 where res3: "res = (r1, b1, out1)" by (cases res rule: prod_cases3)
    have "performs_only A (beh (l_callback l) (l_context l) p b (world out))"
      using progs by blast
    from exec_rel[OF st em this res[unfolded res3]] have r1: "R b b1" by simp
    obtain d tr1 b2 out2 where d: "deliver ev l tr res = (d, tr1, b2, out2)"
      by (cases "deliver ev l tr res" rule: prod_cases4)
    have "d = Returns" using deliver_Returns[of ev l tr res] d by simp
    moreover have "b2 = b1" using deliver_bus[of ev l tr res] d res3 by simp
    ultimately have "forEach n em beh ev p s (l_id l # visited) (tr1, b1, out2) =
        Some (r, tr', b', out')"
      using Suc.prems Some res d by simp
    from Suc.IH[OF this] have "R b1 b'" .
    with r1 show ?thesis by (rule stable_trans[OF st])
  qed
qed

lemma forEach_Returns:
  "forEach n em beh ev p s visited st = Some (r, st') \<Longrightarrow> r = Returns"
proof (induction n arbitrary: visited st)
  case 0
  then show ?case by simp
next
  case (Suc n)
  obtain tr b out where st: "st = (tr, b, out)" by (cases st rule: prod_cases3)
  show ?case
  proof (cases "List.find (\<lambda>l. l_id l \<notin> set visited) (content b s)")
    case None
    with Suc.prems st show ?thesis by simp
  next
    case (Some l)
    with Suc.prems st obtain res where
      res: "exec em (beh (l_callback l) (l_context l) p b (world out))
              (b, out\<lparr>calls := calls out @ [invocation_of p l]\<rparr>) = Some res"
      by (auto split: option.splits)
    obtain d st1 where d: "deliver ev l tr res = (d, st1)"
      by (cases "deliver ev l tr res")
    have "d = Returns" using deliver_Returns[of ev l tr res] d by simp
    then have "forEach n em beh ev p s (l_id l # visited) st1 = Some (r, st')"
      using Suc.prems st Some res d by simp
    then show ?thesis by (rule Suc.IH)
  qed
qed

text \<open>The end of \<open>emit\<close> puts the set back.\<close>

lemma emit_Suc:
  "emit (Suc n) beh k p b out =
     (case map_of (listeners b) k of
        None \<Rightarrow> Some (Returns, b, out)
      | Some s \<Rightarrow>
          (case forEach n (emit n beh) beh k p s [] ([], b, out) of
             None \<Rightarrow> None
           | Some (r, toRemove, b', out') \<Rightarrow>
               Some (Returns, put_back k s (fold set_delete toRemove (content b' s)) b', out')))"
proof (cases "map_of (listeners b) k")
  case None
  then show ?thesis by simp
next
  case (Some s)
  show ?thesis
  proof (cases "forEach n (emit n beh) beh k p s [] ([], b, out)")
    case None
    then show ?thesis using Some by simp
  next
    case (Some res)
    obtain r tr b' out' where res: "res = (r, tr, b', out')" by (cases res rule: prod_cases4)
    have "r = Returns" using forEach_Returns[OF Some[unfolded res]] .
    then show ?thesis
      using \<open>map_of (listeners b) k = Some s\<close> Some res by (simp add: put_back_def Let_def)
  qed
qed

declare emit.simps [simp del]

lemma emit_0 [simp]: "emit 0 beh k p b out = None"
  by (simp add: emit.simps)


lemma emit_rel:
  assumes st: "stable R A"
    and progs: "\<forall>cb ctx p b w. performs_only A (beh cb ctx p b w)"
  shows "keeps R (emit n beh)"
proof (induction n)
  case 0
  show ?case by (simp add: keeps_def)
next
  case (Suc n)
  show ?case
    unfolding keeps_def
  proof (intro allI impI)
    fix k p b out r b' out'
    assume e: "emit (Suc n) beh k p b out = Some (r, b', out')"
    show "R b b'"
    proof (cases "map_of (listeners b) k")
      case None
      with e have "b' = b" by (simp add: emit_Suc)
      then show ?thesis using stable_refl[OF st] by simp
    next
      case (Some s)
      with e obtain r1 tr b1 out1 where
        f: "forEach n (emit n beh) beh k p s [] ([], b, out) = Some (r1, tr, b1, out1)" and
        b': "b' = put_back k s (fold set_delete tr (content b1 s)) b1"
        by (auto simp: emit_Suc split: option.splits)
      have "R b b1"
        by (rule forEach_rel[OF st Suc.IH progs f])
      with Some show ?thesis unfolding b' by (rule stable_tail[OF st])
    qed
  qed
qed

lemma run_rel:
  assumes st: "stable R A"
    and progs: "\<forall>cb ctx p b w. performs_only A (beh cb ctx p b w)"
  shows "list_all A ops \<Longrightarrow> run n beh ops s = Some s' \<Longrightarrow> R (fst s) (fst s')"
proof (induction ops arbitrary: s)
  case Nil
  then show ?case using stable_refl[OF st] by simp
next
  case (Cons op ops)
  from Cons.prems(2) obtain s1 where
    s1: "step (emit n beh) op s = Some s1" and r: "run n beh ops s1 = Some s'"
    by (auto split: option.splits)
  have "A op" using Cons.prems(1) by simp
  moreover have "step (emit n beh) op (fst s, snd s) = Some (fst s1, snd s1)"
    using s1 by simp
  ultimately have "R (fst s) (fst s1)"
    by (rule step_rel[OF st emit_rel[OF st progs]])
  moreover have "R (fst s1) (fst s')" using Cons.IH[OF _ r] Cons.prems(1) by simp
  ultimately show ?case by (rule stable_trans[OF st])
qed

lemma performs_only_True: "performs_only (\<lambda>op. True) pr"
  by (induction pr) auto

subsection \<open>The invariant holds along every sequence of operations\<close>

lemma stable_inv: "stable (\<lambda>b b'. bus_inv b \<longrightarrow> bus_inv b' \<and> grows b b') (\<lambda>op. True)"
  unfolding stable_def
proof (intro conjI allI impI)
  fix b0 b :: bus and k s toRemove
  assume a: "map_of (listeners b0) k = Some s" "bus_inv b0 \<longrightarrow> bus_inv b \<and> grows b0 b"
    and inv0: "bus_inv b0"
  then have inv: "bus_inv b" and g: "grows b0 b" by simp_all
  have only: "map_of (listeners b) k' = Some s \<Longrightarrow> k' = k" for k'
    using g bus_invD(1)[OF inv0 a(1)] bus_invD(5)[OF inv0 a(1)] unfolding grows_def by blast
  show "bus_inv (put_back k s (fold set_delete toRemove (content b s)) b)"
    unfolding fold_set_delete by (rule bus_inv_put_back_filter[OF inv only])
  show "grows b0 (put_back k s (fold set_delete toRemove (content b s)) b)"
    using g grows_put_back by (rule grows_trans)
qed (auto simp: grows_refl on_inv once_inv on_grows once_grows on_unsubscribe_inv
       on_unsubscribe_grows once_unsubscribe_eq off_inv off_grows clear_inv clear_grows
     intro: grows_trans)

lemma emit_inv:
  assumes "bus_inv b" "emit n beh k p b out = Some (r, b', out')"
  shows "bus_inv b'"
proof -
  have "keeps (\<lambda>b b'. bus_inv b \<longrightarrow> bus_inv b' \<and> grows b b') (emit n beh)"
    by (rule emit_rel[OF stable_inv]) (simp add: performs_only_True)
  then have "bus_inv b \<longrightarrow> bus_inv b' \<and> grows b b'"
    using assms(2) unfolding keeps_def by blast
  then show ?thesis using assms(1) by simp
qed

lemma run_inv:
  assumes "bus_inv (fst s)" "run n beh ops s = Some s'"
  shows "bus_inv (fst s')"
  using run_rel[OF stable_inv _ _ assms(2)] assms(1)
  by (simp add: list_all_iff performs_only_True)

lemma run_new_inv: "run n beh ops (new_EventBus, out) = Some (b, out') \<Longrightarrow> bus_inv b"
  using run_inv[of "(new_EventBus, out)" n beh ops "(b, out')"] by (simp add: new_EventBus_inv)

subsection \<open>Delivery to callbacks that do not call the bus\<close>

lemma find_first:
  assumes "\<forall>x \<in> set vs. \<not> P x" "P l"
  shows "List.find P (vs @ l # ls) = Some l"
  using assms by (induction vs) auto

lemma find_none:
  assumes "\<forall>x \<in> set vs. \<not> P x"
  shows "List.find P vs = None"
  using assms by (induction vs) auto

lemma delivered_step:
  "delivered beh ev p b (l # ls) (tr, out) =
     delivered beh ev p b ls
       (case result (beh (l_callback l) (l_context l) p b (world out)) of
          Returns \<Rightarrow>
            (if l_once l then tr @ [l] else tr,
             out\<lparr>calls := calls out @ [invocation_of p l],
                 world := final (beh (l_callback l) (l_context l) p b (world out))\<rparr>)
        | Throws e \<Rightarrow>
            (tr,
             out\<lparr>calls := calls out @ [invocation_of p l],
                 world := final (beh (l_callback l) (l_context l) p b (world out)),
                 console := console out @ [(ev, e)]\<rparr>))"
  by (cases "result (beh (l_callback l) (l_context l) p b (world out))")
     (simp_all add: deliver_def)

lemma forEach_bus_free:
  assumes "content b s = vs @ ls" "distinct (map l_id (vs @ ls))" "set visited = l_id ` set vs"
    and "bus_free beh p b ls" "length ls < n"
  shows "forEach n em beh ev p s visited (tr, b, out) =
           Some (Returns, fst (delivered beh ev p b ls (tr, out)), b,
                 snd (delivered beh ev p b ls (tr, out)))"
  using assms
proof (induction ls arbitrary: n vs visited tr out)
  case Nil
  then obtain m where n: "n = Suc m" by (cases n) auto
  have "List.find (\<lambda>l. l_id l \<notin> set visited) (content b s) = None"
    using Nil.prems by (intro find_none) auto
  then show ?case using n by simp
next
  case (Cons l ls)
  then obtain m where n: "n = Suc m" and m: "length ls < m" by (cases n) auto
  have f: "List.find (\<lambda>x. l_id x \<notin> set visited) (content b s) = Some l"
    unfolding Cons.prems(1) using Cons.prems(2,3) by (intro find_first) auto
  have "is_Finish (beh (l_callback l) (l_context l) p b (world out))"
    using Cons.prems(4) by (simp add: bus_free_def)
  then obtain r w where pr: "beh (l_callback l) (l_context l) p b (world out) = Finish r w"
    by (cases "beh (l_callback l) (l_context l) p b (world out)") simp_all
  obtain tr1 out1 where d: "deliver ev l tr
      (r, b, out\<lparr>calls := calls out @ [invocation_of p l], world := w\<rparr>) = (Returns, tr1, b, out1)"
    by (cases r) (auto simp: deliver_def)
  have step: "delivered beh ev p b (l # ls) (tr, out) = delivered beh ev p b ls (tr1, out1)"
    using pr d by simp
  have "forEach m em beh ev p s (l_id l # visited) (tr1, b, out1) =
          Some (Returns, fst (delivered beh ev p b ls (tr1, out1)), b,
                snd (delivered beh ev p b ls (tr1, out1)))"
  proof (rule Cons.IH[of "vs @ [l]"])
    show "content b s = (vs @ [l]) @ ls" using Cons.prems(1) by simp
    show "distinct (map l_id ((vs @ [l]) @ ls))" using Cons.prems(2) by simp
    show "set (l_id l # visited) = l_id ` set (vs @ [l])" using Cons.prems(3) by auto
    show "bus_free beh p b ls" using Cons.prems(4) by (simp add: bus_free_def)
    show "length ls < m" by (rule m)
  qed
  then show ?case using n f pr d step by simp
qed

lemma emit_bus_free:
  assumes "bus_inv b" "map_of (listeners b) k = Some s"
    and "bus_free beh p b (content b s)" "length (content b s) < n"
  shows "emit (Suc n) beh k p b out =
           Some (Returns,
                 put_back k s (fold set_delete
                   (fst (delivered beh k p b (content b s) ([], out))) (content b s)) b,
                 snd (delivered beh k p b (content b s) ([], out)))"
proof -
  have "forEach n (emit n beh) beh k p s [] ([], b, out) =
           Some (Returns, fst (delivered beh k p b (content b s) ([], out)), b,
                 snd (delivered beh k p b (content b s) ([], out)))"
    by (rule forEach_bus_free[of b s "[]"])
       (use assms bus_invD(3)[OF assms(1,2)] in simp_all)
  then show ?thesis using assms(2) by (simp add: emit_Suc)
qed

subsection \<open>What such a delivery leaves\<close>






lemma delivered_toRemove:
  "\<exists>rs. fst (delivered beh ev p b ls (tr, out)) = tr @ rs \<and> set rs \<subseteq> {l \<in> set ls. l_once l}"
proof (induction ls arbitrary: tr out)
  case Nil
  show ?case by simp
next
  case (Cons l ls)
  show ?case
  proof (cases "result (beh (l_callback l) (l_context l) p b (world out))")
    case Returns
    from Cons.IH[of "if l_once l then tr @ [l] else tr"
        "out\<lparr>calls := calls out @ [invocation_of p l],
             world := final (beh (l_callback l) (l_context l) p b (world out))\<rparr>"]
    obtain rs where "fst (delivered beh ev p b ls (if l_once l then tr @ [l] else tr,
        out\<lparr>calls := calls out @ [invocation_of p l],
             world := final (beh (l_callback l) (l_context l) p b (world out))\<rparr>)) =
        (if l_once l then tr @ [l] else tr) @ rs" "set rs \<subseteq> {l \<in> set ls. l_once l}"
      by auto
    then show ?thesis
      unfolding delivered_step using Returns
      by (intro exI[of _ "if l_once l then l # rs else rs"]) auto
  next
    case (Throws e)
    from Cons.IH[of tr "out\<lparr>calls := calls out @ [invocation_of p l],
             world := final (beh (l_callback l) (l_context l) p b (world out)),
             console := console out @ [(ev, e)]\<rparr>"]
    obtain rs where "fst (delivered beh ev p b ls (tr,
        out\<lparr>calls := calls out @ [invocation_of p l],
             world := final (beh (l_callback l) (l_context l) p b (world out)),
             console := console out @ [(ev, e)]\<rparr>)) = tr @ rs" "set rs \<subseteq> {l \<in> set ls. l_once l}"
      by auto
    then show ?thesis
      unfolding delivered_step using Throws by (intro exI[of _ rs]) auto
  qed
qed

lemma delivered_returning:
  assumes "\<forall>l \<in> set ls. \<forall>w. result (beh (l_callback l) (l_context l) p b w) = Returns"
  shows "fst (delivered beh ev p b ls (tr, out)) = tr @ filter l_once ls"
  using assms
proof (induction ls arbitrary: tr out)
  case Nil
  show ?case by simp
next
  case (Cons l ls)
  have "result (beh (l_callback l) (l_context l) p b (world out)) = Returns"
    using Cons.prems by simp
  then show ?case
    unfolding delivered_step using Cons.IH[of "if l_once l then tr @ [l] else tr"] Cons.prems
    by simp
qed

lemma delivered_pushed:
  assumes "l \<in> set (fst (delivered beh ev p b ls (tr, out)))"
  shows "l \<in> set tr \<or> (\<exists>w. result (beh (l_callback l) (l_context l) p b w) = Returns)"
  using assms
proof (induction ls arbitrary: tr out)
  case Nil
  then show ?case by simp
next
  case (Cons x ls)
  show ?case
  proof (cases "result (beh (l_callback x) (l_context x) p b (world out))")
    case Returns
    with Cons.prems have "l \<in> set (fst (delivered beh ev p b ls
        (if l_once x then tr @ [x] else tr,
         out\<lparr>calls := calls out @ [invocation_of p x],
             world := final (beh (l_callback x) (l_context x) p b (world out))\<rparr>)))"
      unfolding delivered_step by simp
    from Cons.IH[OF this] show ?thesis
      using Returns by (auto split: if_splits)
  next
    case (Throws e)
    with Cons.prems have "l \<in> set (fst (delivered beh ev p b ls
        (tr, out\<lparr>calls := calls out @ [invocation_of p x],
             world := final (beh (l_callback x) (l_context x) p b (world out)),
             console := console out @ [(ev, e)]\<rparr>)))"
      unfolding delivered_step by simp
    from Cons.IH[OF this] show ?thesis .
  qed
qed

subsection \<open>Listeners that match a callback and a context\<close>

text \<open>
  Once no listener under a key has a given callback and context, this stays so until that
  callback is subscribed again with that context under the key.
\<close>

lemma listeners_of_put_back_subset:
  "set (listeners_of (put_back k' s (filter Q (content b s)) b) k) \<subseteq> set (listeners_of b k)"
proof (cases "map_of (listeners (put_back k' s (filter Q (content b s)) b)) k")
  case None
  then show ?thesis by (simp add: listeners_of_def)
next
  case (Some s')
  then have old: "map_of (listeners b) k = Some s'"
    by (auto simp: map_of_put_back split: if_splits)
  show ?thesis using Some old
    by (cases "s' = s") (auto simp: listeners_of_def content_put_back)
qed

lemma listeners_of_delete_subset:
  "set (listeners_of (b\<lparr>listeners := AList.delete k' (listeners b)\<rparr>) k) \<subseteq> set (listeners_of b k)"
  by (auto simp: listeners_of_def delete_conv' content_def split: option.splits if_splits)

lemma unmatched_subset:
  assumes "unmatched k cb ctx b" "set (listeners_of b' k) \<subseteq> set (listeners_of b k)"
  shows "unmatched k cb ctx b'"
  using assms by (auto simp: unmatched_def list_all_iff)

lemma unmatched_on_unsubscribe:
  assumes "unmatched k cb ctx b"
  shows "unmatched k cb ctx (on_unsubscribe k' cb' ctx' b)"
proof (cases "map_of (listeners b) k'")
  case None
  then show ?thesis using assms by (simp add: on_unsubscribe_None)
next
  case (Some s)
  show ?thesis
    unfolding on_unsubscribe_filter[OF Some]
    by (rule unmatched_subset[OF assms listeners_of_put_back_subset])
qed

lemma unmatched_off:
  assumes "unmatched k cb ctx b"
  shows "unmatched k cb ctx (off k' cbo ctx' b)"
proof (cases cbo)
  case None
  show ?thesis
    unfolding None off_all by (rule unmatched_subset[OF assms listeners_of_delete_subset])
next
  case cb': (Some cb')
  show ?thesis
  proof (cases "map_of (listeners b) k'")
    case None
    then show ?thesis using assms by (simp add: off_None)
  next
    case (Some s)
    show ?thesis
      unfolding cb' off_filter[OF Some]
      by (rule unmatched_subset[OF assms listeners_of_put_back_subset])
  qed
qed

lemma unmatched_clear:
  assumes "unmatched k cb ctx b"
  shows "unmatched k cb ctx (clear evo b)"
proof (cases evo)
  case None
  then show ?thesis by (simp add: clear_def unmatched_def listeners_of_def)
next
  case (Some k')
  show ?thesis
    unfolding Some clear_def option.case
    by (rule unmatched_subset[OF assms listeners_of_delete_subset])
qed

lemma unmatched_on:
  assumes "bus_inv b" "unmatched k cb ctx b" "On k' cb' ctx' \<noteq> On k cb ctx"
  shows "unmatched k cb ctx (snd (on k' cb' ctx' b))"
  using assms(2,3)
  by (auto simp: unmatched_def listeners_of_on[OF assms(1)] strict_eq_def)

lemma unmatched_once:
  assumes "bus_inv b" "unmatched k cb ctx b" "Once k' cb' ctx' \<noteq> Once k cb ctx"
  shows "unmatched k cb ctx (snd (once k' cb' ctx' b))"
  using assms(2,3)
  by (auto simp: unmatched_def listeners_of_once[OF assms(1)] strict_eq_def)

lemma stable_unmatched:
  "stable (\<lambda>b b'. bus_inv b \<and> unmatched k cb ctx b \<longrightarrow>
              bus_inv b' \<and> grows b b' \<and> unmatched k cb ctx b')
     (\<lambda>op. op \<noteq> On k cb ctx \<and> op \<noteq> Once k cb ctx)"
  unfolding stable_def
proof (intro conjI allI impI)
  fix b0 b :: bus and k' s toRemove
  assume a: "map_of (listeners b0) k' = Some s"
    "bus_inv b0 \<and> unmatched k cb ctx b0 \<longrightarrow> bus_inv b \<and> grows b0 b \<and> unmatched k cb ctx b"
    and pre: "bus_inv b0 \<and> unmatched k cb ctx b0"
  then have inv: "bus_inv b" and g: "grows b0 b" and u: "unmatched k cb ctx b" by simp_all
  have inv0: "bus_inv b0" using pre by simp
  have only: "map_of (listeners b) k'' = Some s \<Longrightarrow> k'' = k'" for k''
    using g bus_invD(1)[OF inv0 a(1)] bus_invD(5)[OF inv0 a(1)] unfolding grows_def by blast
  show "bus_inv (put_back k' s (fold set_delete toRemove (content b s)) b)"
    unfolding fold_set_delete by (rule bus_inv_put_back_filter[OF inv only])
  show "grows b0 (put_back k' s (fold set_delete toRemove (content b s)) b)"
    using g grows_put_back by (rule grows_trans)
  show "unmatched k cb ctx (put_back k' s (fold set_delete toRemove (content b s)) b)"
    unfolding fold_set_delete by (rule unmatched_subset[OF u listeners_of_put_back_subset])
qed (auto simp: grows_refl on_inv once_inv on_grows once_grows on_unsubscribe_inv
       on_unsubscribe_grows once_unsubscribe_eq off_inv off_grows clear_inv clear_grows
       unmatched_on unmatched_once unmatched_on_unsubscribe unmatched_off unmatched_clear
     intro: grows_trans)

lemma unmatched_after_unsubscribe:
  assumes "bus_inv b"
  shows "unmatched k cb ctx (on_unsubscribe k cb ctx b)"
  by (simp add: unmatched_def listeners_of_on_unsubscribe[OF assms] list_all_iff)

lemma on_unsubscribe_unmatched:
  assumes "bus_inv b" "unmatched k cb ctx b"
  shows "on_unsubscribe k cb ctx b = b"
proof (cases "map_of (listeners b) k")
  case None
  then show ?thesis by (simp add: on_unsubscribe_None)
next
  case (Some s)
  have "\<forall>l \<in> set (content b s). \<not> (l_callback l = cb \<and> strict_eq (l_context l) ctx)"
    using assms(2) Some by (simp add: unmatched_def listeners_of_def list_all_iff)
  then have "filter (\<lambda>l. \<not> (l_callback l = cb \<and> strict_eq (l_context l) ctx)) (content b s) =
      content b s"
    by (simp add: filter_id_conv)
  then show ?thesis
    using bus_invD(2,3)[OF assms(1) Some] bus_inv_stored[OF assms(1) Some] Some
    by (simp add: on_unsubscribe_Some put_back_same)
qed

lemma run_unmatched:
  assumes "bus_inv b" "unmatched k cb ctx b"
    and "\<forall>op \<in> set ops. op \<noteq> On k cb ctx \<and> op \<noteq> Once k cb ctx"
    and "\<forall>cb' ctx' p b' w.
           performs_only (\<lambda>op. op \<noteq> On k cb ctx \<and> op \<noteq> Once k cb ctx) (beh cb' ctx' p b' w)"
    and "run n beh ops (b, out) = Some (B, out')"
  shows "bus_inv B \<and> unmatched k cb ctx B"
  using run_rel[OF stable_unmatched assms(4) _ assms(5)] assms(1,2,3)
  by (simp add: list_all_iff)

subsection \<open>An emission to callbacks that do not call the bus\<close>

lemma emit_quiet:
  assumes "bus_inv b" "bus_free beh p b (listeners_of b k)" "length (listeners_of b k) < n"
  shows "\<exists>b'. emit (Suc n) beh k p b out =
             Some (Returns, b', snd (delivered beh k p b (listeners_of b k) ([], out))) \<and>
           bus_inv b' \<and>
           (\<forall>k'. listeners_of b' k' =
              (if k' = k
               then filter (\<lambda>x. l_id x \<notin>
                      l_id ` set (fst (delivered beh k p b (listeners_of b k) ([], out))))
                      (listeners_of b k)
               else listeners_of b k'))"
proof (cases "map_of (listeners b) k")
  case None
  then show ?thesis using assms(1) by (simp add: listeners_of_None emit_Suc)
next
  case (Some s)
  have ls: "listeners_of b k = content b s" using Some by (rule listeners_of_Some)
  let ?D = "delivered beh k p b (content b s) ([], out)"
  let ?b' = "put_back k s (fold set_delete (fst ?D) (content b s)) b"
  have e: "emit (Suc n) beh k p b out = Some (Returns, ?b', snd ?D)"
    using assms(2,3) unfolding ls by (rule emit_bus_free[OF assms(1) Some])
  have "bus_inv ?b'"
    unfolding fold_set_delete
    by (rule bus_inv_put_back_filter[OF assms(1)]) (rule bus_invD(5)[OF assms(1) Some])
  moreover have "\<forall>k'. listeners_of ?b' k' =
      (if k' = k then filter (\<lambda>x. l_id x \<notin> l_id ` set (fst ?D)) (content b s)
       else listeners_of b k')"
    by (simp add: listeners_of_put_back[OF assms(1) Some] fold_set_delete)
  ultimately show ?thesis using e unfolding ls by blast
qed

lemma emit_keeps_throwing_listener:
  assumes "bus_inv b" "bus_free beh p b (listeners_of b k)" "length (listeners_of b k) < n"
    and "l \<in> set (listeners_of b k)"
    and "\<forall>w. result (beh (l_callback l) (l_context l) p b w) \<noteq> Returns"
  shows "\<exists>b' out'. emit (Suc n) beh k p b out = Some (Returns, b', out') \<and>
           l \<in> set (listeners_of b' k)"
proof -
  let ?rs = "fst (delivered beh k p b (listeners_of b k) ([], out))"
  from emit_quiet[OF assms(1,2,3), of out] obtain b' where
    e: "emit (Suc n) beh k p b out =
          Some (Returns, b', snd (delivered beh k p b (listeners_of b k) ([], out)))" and
    l': "listeners_of b' k = filter (\<lambda>x. l_id x \<notin> l_id ` set ?rs) (listeners_of b k)"
    by auto
  have inj: "inj_on l_id (set (listeners_of b k))"
    using bus_inv_listeners_of(1)[OF assms(1), of k] by (simp add: distinct_map)
  have sub: "set ?rs \<subseteq> set (listeners_of b k)"
    using delivered_toRemove[of beh k p b "listeners_of b k" "[]" out] by auto
  have "l \<notin> set ?rs"
    using delivered_pushed[of l beh k p b "listeners_of b k" "[]" out] assms(5) by auto
  then have "l_id l \<notin> l_id ` set ?rs"
    using inj assms(4) sub by (auto dest: inj_onD)
  then show ?thesis using e l' assms(4) by simp
qed

lemma emit_removes_once_listeners:
  assumes "bus_inv b" "bus_free beh p b (listeners_of b k)" "length (listeners_of b k) < n"
    and "\<forall>l \<in> set (listeners_of b k). \<forall>w. result (beh (l_callback l) (l_context l) p b w) = Returns"
  shows "\<exists>b' out'. emit (Suc n) beh k p b out = Some (Returns, b', out') \<and>
           listeners_of b' k = filter (\<lambda>l. \<not> l_once l) (listeners_of b k)"
proof -
  let ?rs = "fst (delivered beh k p b (listeners_of b k) ([], out))"
  from emit_quiet[OF assms(1,2,3), of out] obtain b' where
    e: "emit (Suc n) beh k p b out =
          Some (Returns, b', snd (delivered beh k p b (listeners_of b k) ([], out)))" and
    l': "listeners_of b' k = filter (\<lambda>x. l_id x \<notin> l_id ` set ?rs) (listeners_of b k)"
    by auto
  have inj: "inj_on l_id (set (listeners_of b k))"
    using bus_inv_listeners_of(1)[OF assms(1), of k] by (simp add: distinct_map)
  have rs: "?rs = filter l_once (listeners_of b k)"
    using delivered_returning[of "listeners_of b k" beh p b k "[]" out] assms(4) by simp
  have "filter (\<lambda>x. l_id x \<notin> l_id ` set ?rs) (listeners_of b k) =
        filter (\<lambda>l. \<not> l_once l) (listeners_of b k)"
    unfolding rs by (rule filter_cong) (use inj in \<open>auto dest: inj_onD\<close>)
  then show ?thesis using e l' by simp
qed


subsection \<open>Sequences of operations that return\<close>

text \<open>
  When no callback calls the bus, every sequence of operations returns, given a bound
  above the number of listeners that any key can have during the sequence: the listeners
  of a key at the start and one for each operation.
\<close>

lemma listeners_of_delete:
  "listeners_of (b\<lparr>listeners := AList.delete k (listeners b)\<rparr>) k' =
     (if k' = k then [] else listeners_of b k')"
  by (simp add: listeners_of_def delete_conv' content_def split: option.splits)

lemma step_bus_free:
  assumes "bus_inv b" "\<forall>cb ctx p b w. is_Finish (beh cb ctx p b w)"
    and "\<forall>k. length (listeners_of b k) < n"
  shows "\<exists>b' out'. step (emit (Suc n) beh) op (b, out) = Some (b', out') \<and> bus_inv b' \<and>
           (\<forall>k. length (listeners_of b' k) \<le> Suc (length (listeners_of b k)))"
proof (cases op)
  case (On k cb ctx)
  then show ?thesis using assms(1) by (simp add: on_inv listeners_of_on)
next
  case (Once k cb ctx)
  then show ?thesis using assms(1) by (simp add: once_inv listeners_of_once)
next
  case (Unsubscribe k cb ctx)
  then show ?thesis using assms(1)
    by (simp add: on_unsubscribe_inv listeners_of_on_unsubscribe le_SucI)
next
  case (UnsubscribeOnce k cb ctx)
  then show ?thesis using assms(1)
    by (simp add: once_unsubscribe_eq on_unsubscribe_inv listeners_of_on_unsubscribe le_SucI)
next
  case (Off k cbo ctx)
  show ?thesis
  proof (cases cbo)
    case None
    then show ?thesis using Off off_inv[OF assms(1), of k None ctx]
      by (simp add: off_all listeners_of_delete)
  next
    case (Some cb)
    then show ?thesis using Off assms(1)
      by (simp add: off_inv listeners_of_off_Some le_SucI)
  qed
next
  case (Clear evo)
  show ?thesis
  proof (cases evo)
    case None
    then show ?thesis using Clear clear_inv[OF assms(1), of None]
      by (simp add: clear_def listeners_of_def)
  next
    case (Some k)
    then show ?thesis using Clear clear_inv[OF assms(1), of "Some k"]
      by (simp add: clear_def listeners_of_delete)
  qed
next
  case (Emit k p)
  have f: "bus_free beh p b (listeners_of b k)" using assms(2) by (simp add: bus_free_def)
  have n: "length (listeners_of b k) < n" using assms(3) by simp
  from emit_quiet[OF assms(1) f n, of out] obtain b' where
    e: "emit (Suc n) beh k p b out =
          Some (Returns, b', snd (delivered beh k p b (listeners_of b k) ([], out)))" and
    i: "bus_inv b'" and
    l: "\<forall>k'. listeners_of b' k' =
          (if k' = k
           then filter (\<lambda>x. l_id x \<notin>
                  l_id ` set (fst (delivered beh k p b (listeners_of b k) ([], out))))
                  (listeners_of b k)
           else listeners_of b k')"
    by blast
  show ?thesis using Emit e i l by (simp add: le_SucI)
qed

lemma run_bus_free:
  assumes "bus_inv b" "\<forall>cb ctx p b w. is_Finish (beh cb ctx p b w)"
    and "\<forall>k. length (listeners_of b k) + length ops < n"
  shows "\<exists>B out'. run (Suc n) beh ops (b, out) = Some (B, out') \<and> bus_inv B"
  using assms(1,3)
proof (induction ops arbitrary: b out)
  case Nil
  then show ?case by simp
next
  case (Cons op ops)
  have "\<forall>k. length (listeners_of b k) < n"
  proof
    fix k
    show "length (listeners_of b k) < n" using Cons.prems(2)[rule_format, of k] by simp
  qed
  from step_bus_free[OF Cons.prems(1) assms(2) this, of op out] obtain b' out' where
    s: "step (emit (Suc n) beh) op (b, out) = Some (b', out')" and i: "bus_inv b'" and
    l: "\<forall>k. length (listeners_of b' k) \<le> Suc (length (listeners_of b k))"
    by blast
  have "\<forall>k. length (listeners_of b' k) + length ops < n"
  proof
    fix k
    show "length (listeners_of b' k) + length ops < n"
      using l[rule_format, of k] Cons.prems(2)[rule_format, of k] by simp
  qed
  from Cons.IH[OF i this, of out'] show ?case using s by simp
qed


lemma two_contexts_eq:
  "two_contexts =
     \<lparr>listeners = [(Str ''test'', 0)],
      sets = [(0, [\<lparr>l_id = 0, l_callback = Fn 1, l_context = Ref 1, l_once = False\<rparr>,
                   \<lparr>l_id = 1, l_callback = Fn 1, l_context = Ref 2, l_once = False\<rparr>])],
      next_id = 2, next_set = 1\<rparr>"
  by (simp add: two_contexts_def bus_simps)

lemma two_contexts_inv: "bus_inv two_contexts"
  unfolding two_contexts_def by (intro on_inv new_EventBus_inv)


lemma two_contexts_listeners:
  "listeners_of two_contexts test_event =
     [\<lparr>l_id = 0, l_callback = Fn 1, l_context = Ref 1, l_once = False\<rparr>,
      \<lparr>l_id = 1, l_callback = Fn 1, l_context = Ref 2, l_once = False\<rparr>]"
  by (simp add: two_contexts_eq listeners_of_def content_def test_event_def)


subsection \<open>The bounds of an emission\<close>

text \<open>
  What an emission or a sequence of operations returns within some bounds, it returns
  within all greater bounds.
\<close>

lemma step_mono:
  assumes "extends em em'" "step em op st = Some st'"
  shows "step em' op st = Some st'"
proof (cases st)
  case (Pair b out)
  show ?thesis
  proof (cases op)
    case (Emit k p)
    then show ?thesis using assms Pair
      by (auto simp: extends_def split: option.splits prod.splits)
  qed (use assms Pair in auto)
qed

lemma exec_mono:
  assumes "extends em em'"
  shows "exec em pr st = Some r \<Longrightarrow> exec em' pr st = Some r"
proof (induction pr arbitrary: st)
  case (Finish x1 x2)
  then show ?case by simp
next
  case (Perform w op cont)
  from Perform.prems obtain st' where
    s: "step em op (fst st, (snd st)\<lparr>world := w\<rparr>) = Some st'" and
    e: "exec em (cont (fst st') (world (snd st'))) st' = Some r"
    by (auto split: option.splits)
  have "exec em' (cont (fst st') (world (snd st'))) st' = Some r"
    using e by (rule Perform.IH[OF rangeI rangeI])
  then show ?case using step_mono[OF assms s] by simp
qed

lemma forEach_mono:
  assumes "extends em em'"
  shows "forEach n em beh ev p s visited st = Some r \<Longrightarrow> n \<le> n' \<Longrightarrow>
         forEach n' em' beh ev p s visited st = Some r"
proof (induction n arbitrary: n' visited st)
  case 0
  then show ?case by simp
next
  case (Suc n)
  from Suc.prems(2) obtain m where n': "n' = Suc m" and m: "n \<le> m" by (cases n') auto
  obtain toRemove b out where st: "st = (toRemove, b, out)" by (cases st) auto
  show ?case
  proof (cases "List.find (\<lambda>l. l_id l \<notin> set visited) (content b s)")
    case None
    then show ?thesis using Suc.prems(1) st n' by simp
  next
    case (Some l)
    from Suc.prems(1) Some st obtain res where
      x: "exec em (beh (l_callback l) (l_context l) p b (world out))
            (b, out\<lparr>calls := calls out @ [invocation_of p l]\<rparr>) = Some res"
      by (auto split: option.splits)
    have x': "exec em' (beh (l_callback l) (l_context l) p b (world out))
            (b, out\<lparr>calls := calls out @ [invocation_of p l]\<rparr>) = Some res"
      using x by (rule exec_mono[OF assms])
    obtain r0 st' where d: "deliver ev l toRemove res = (r0, st')"
      by (cases "deliver ev l toRemove res") auto
    show ?thesis
    proof (cases r0)
      case Returns
      then have "forEach n em beh ev p s (l_id l # visited) st' = Some r"
        using Suc.prems(1) Some st x d by simp
      then have "forEach m em' beh ev p s (l_id l # visited) st' = Some r"
        using m by (rule Suc.IH)
      then show ?thesis using Some st x' d Returns n' by simp
    next
      case (Throws e)
      then have "r = (Throws e, st')" using Suc.prems(1) Some st x d by simp
      then show ?thesis using Some st x' d Throws n' by simp
    qed
  qed
qed

lemma emit_mono:
  "emit n beh k p b out = Some r \<Longrightarrow> n \<le> n' \<Longrightarrow> emit n' beh k p b out = Some r"
proof (induction n arbitrary: n' k p b out r)
  case 0
  then show ?case by simp
next
  case (Suc n)
  from Suc.prems(2) obtain m where n': "n' = Suc m" and m: "n \<le> m" by (cases n') auto
  have ext: "extends (emit n beh) (emit m beh)"
    unfolding extends_def using Suc.IH[OF _ m] by blast
  show ?case
  proof (cases "map_of (listeners b) k")
    case None
    then show ?thesis using Suc.prems(1) n' by (simp add: emit_Suc)
  next
    case (Some s)
    from Suc.prems(1) Some obtain x where
      f: "forEach n (emit n beh) beh k p s [] ([], b, out) = Some x"
      by (auto simp: emit_Suc split: option.splits)
    have "forEach m (emit m beh) beh k p s [] ([], b, out) = Some x"
      using f m by (rule forEach_mono[OF ext])
    then show ?thesis using Suc.prems(1) Some f n' by (simp add: emit_Suc)
  qed
qed

lemma run_mono:
  "run n beh ops st = Some st' \<Longrightarrow> n \<le> n' \<Longrightarrow> run n' beh ops st = Some st'"
proof (induction ops arbitrary: st)
  case Nil
  then show ?case by simp
next
  case (Cons op ops)
  from Cons.prems(1) obtain st1 where
    s: "step (emit n beh) op st = Some st1" and r: "run n beh ops st1 = Some st'"
    by (auto split: option.splits)
  have "extends (emit n beh) (emit n' beh)"
    unfolding extends_def by (intro allI impI) (rule emit_mono[OF _ Cons.prems(2)])
  from step_mono[OF this s] Cons.IH[OF r Cons.prems(2)] show ?case by simp
qed

section \<open>The tests of the bus, on the model\<close>

lemma test_subscribe_and_emit:
  "map_option (\<lambda>st. calls (snd st))
     (run 5 quiet [On test_event (Fn 1) Null, Emit test_event 5] (new_EventBus, out0)) =
   Some [\<lparr>fn = Fn 1, receiver = Null, arg = 5\<rparr>]"
  by (simp add: bus_simps eval_nat_numeral)

lemma test_different_events:
  "map_option (\<lambda>st. calls (snd st))
     (run 5 quiet [On (Str ''test1'') (Fn 1) Null, On (Str ''test2'') (Fn 2) Null,
                   Emit (Str ''test1'') 5] (new_EventBus, out0)) =
   Some [\<lparr>fn = Fn 1, receiver = Null, arg = 5\<rparr>]"
  by (simp add: bus_simps eval_nat_numeral)

lemma test_unsubscribe_function:
  "map_option (\<lambda>st. calls (snd st))
     (run 5 quiet [On test_event (Fn 1) Null, Unsubscribe test_event (Fn 1) Null,
                   Emit test_event 5] (new_EventBus, out0)) = Some []"
  by (simp add: bus_simps eval_nat_numeral)

lemma test_off_all:
  "map_option (\<lambda>st. calls (snd st))
     (run 5 quiet [On test_event (Fn 1) Null, On test_event (Fn 2) Null,
                   Off test_event None Null, Emit test_event 5] (new_EventBus, out0)) = Some []"
  by (simp add: bus_simps eval_nat_numeral)

lemma test_unsubscribe_by_context:
  "map_option (\<lambda>st. calls (snd st))
     (run 5 quiet [On test_event (Fn 1) (Ref 1), On test_event (Fn 1) (Ref 2),
                   Off test_event (Some (Fn 1)) (Ref 1), Emit test_event 5]
        (new_EventBus, out0)) =
   Some [\<lparr>fn = Fn 1, receiver = Ref 2, arg = 5\<rparr>]"
  by (simp add: bus_simps eval_nat_numeral)

lemma test_once:
  "map_option (\<lambda>st. calls (snd st))
     (run 5 quiet [Once test_event (Fn 1) Null, Emit test_event 5, Emit test_event 6]
        (new_EventBus, out0)) =
   Some [\<lparr>fn = Fn 1, receiver = Null, arg = 5\<rparr>]"
  by (simp add: bus_simps eval_nat_numeral)

lemma test_multiple_once:
  "map_option (\<lambda>st. calls (snd st))
     (run 5 quiet [Once test_event (Fn 1) Null, Once test_event (Fn 2) Null,
                   Emit test_event 5, Emit test_event 6] (new_EventBus, out0)) =
   Some [\<lparr>fn = Fn 1, receiver = Null, arg = 5\<rparr>, \<lparr>fn = Fn 2, receiver = Null, arg = 5\<rparr>]"
  by (simp add: bus_simps eval_nat_numeral)

lemma test_unsubscribe_once:
  "map_option (\<lambda>st. calls (snd st))
     (run 5 quiet [Once test_event (Fn 1) Null, UnsubscribeOnce test_event (Fn 1) Null,
                   Emit test_event 5] (new_EventBus, out0)) = Some []"
  by (simp add: bus_simps eval_nat_numeral)

lemma test_clear_event:
  "map_option (\<lambda>st. calls (snd st))
     (run 5 quiet [On (Str ''test1'') (Fn 1) Null, On (Str ''test2'') (Fn 2) Null,
                   Clear (Some (Str ''test1'')), Emit (Str ''test1'') 5,
                   Emit (Str ''test2'') 6] (new_EventBus, out0)) =
   Some [\<lparr>fn = Fn 2, receiver = Null, arg = 6\<rparr>]"
  by (simp add: bus_simps eval_nat_numeral)

lemma test_clear_all:
  "map_option (\<lambda>st. calls (snd st))
     (run 5 quiet [On (Str ''test1'') (Fn 1) Null, On (Str ''test2'') (Fn 2) Null,
                   Clear None, Emit (Str ''test1'') 5, Emit (Str ''test2'') 6]
        (new_EventBus, out0)) = Some []"
  by (simp add: bus_simps eval_nat_numeral)

lemma test_catch_errors:
  "map_option snd
     (run 5 failing [On test_event (Fn 0) Null, On test_event (Fn 1) Null, Emit test_event 5]
        (new_EventBus, count0)) =
   Some \<lparr>world = 2,
      calls = [\<lparr>fn = Fn 0, receiver = Null, arg = 5\<rparr>, \<lparr>fn = Fn 1, receiver = Null, arg = 5\<rparr>],
      console = [(Str ''test'', ''Test error'')]\<rparr>"
  by (simp add: bus_simps eval_nat_numeral)

lemma test_listenerCount:
  "listenerCount new_EventBus test_event = 0"
  "map_option (\<lambda>st. listenerCount (fst st) test_event)
     (run 5 quiet [On test_event (Fn 1) Null] (new_EventBus, out0)) = Some 1"
  "map_option (\<lambda>st. listenerCount (fst st) test_event)
     (run 5 quiet [On test_event (Fn 1) Null, On test_event (Fn 2) Null]
        (new_EventBus, out0)) = Some 2"
  "map_option (\<lambda>st. listenerCount (fst st) test_event)
     (run 5 quiet [On test_event (Fn 1) Null, On test_event (Fn 2) Null,
                   Off test_event (Some (Fn 1)) Null] (new_EventBus, out0)) = Some 1"
  by (simp_all add: bus_simps eval_nat_numeral)

lemma test_eventNames:
  "map_option (\<lambda>st. eventNames (fst st))
     (run 5 quiet [On (Str ''test1'') (Fn 1) Null, On (Str ''test2'') (Fn 2) Null]
        (new_EventBus, out0)) = Some [Str ''test1'', Str ''test2'']"
  by (simp add: bus_simps eval_nat_numeral)

lemma test_symbol_key:
  "map_option (\<lambda>st. calls (snd st))
     (run 5 quiet [On (Sym 0) (Fn 1) Null, Emit (Sym 0) 5] (new_EventBus, out0)) =
   Some [\<lparr>fn = Fn 1, receiver = Null, arg = 5\<rparr>]"
  by (simp add: bus_simps eval_nat_numeral)

lemma test_memory_management:
  "map_option (\<lambda>st. listeners (fst st))
     (run 5 quiet [On test_event (Fn 1) Null, Off test_event (Some (Fn 1)) Null]
        (new_EventBus, out0)) = Some []"
  by (simp add: bus_simps eval_nat_numeral)

subsection \<open>Callbacks that call the bus during an emission\<close>

text \<open>
  An emission inside an emission iterates over the same set. Here a one-time listener is
  followed by a listener whose callback emits the event again: the one-time listener is
  invoked by both emissions, since the outer one removes it only after its own delivery.
  A callback that emits its own event at every call never returns.
\<close>

lemma nested_emit_invokes_once_listener_twice:
  "run 5 reemitting [Once test_event (Fn 1) Null, On test_event (Fn 0) Null, Emit test_event 7]
     (new_EventBus, count0) =
   Some (\<lparr>listeners = [(Str ''test'', 0)],
           sets = [(0, [\<lparr>l_id = Suc 0, l_callback = Fn 0, l_context = Null, l_once = False\<rparr>])],
           next_id = 2, next_set = Suc 0\<rparr>,
         \<lparr>world = 4,
          calls = [\<lparr>fn = Fn 1, receiver = Null, arg = 7\<rparr>, \<lparr>fn = Fn 0, receiver = Null, arg = 7\<rparr>,
                   \<lparr>fn = Fn 1, receiver = Null, arg = 7\<rparr>, \<lparr>fn = Fn 0, receiver = Null, arg = 7\<rparr>],
          console = []\<rparr>)"
  by (simp add: bus_simps eval_nat_numeral)

lemma emit_inside_own_callback_does_not_return:
  "run n (meddling (Emit test_event 9) Returns) [On test_event (Fn 0) Null, Emit test_event 7]
     (new_EventBus, count0) = None"
proof -
  have "emit n (meddling (Emit test_event 9) Returns) test_event p
          \<lparr>listeners = [(Str ''test'', 0)],
           sets = [(0, [\<lparr>l_id = 0, l_callback = Fn 0, l_context = Null, l_once = False\<rparr>])],
           next_id = Suc 0, next_set = Suc 0\<rparr> out = None" for p out
  proof (induction n arbitrary: p out)
    case 0
    then show ?case by simp
  next
    case (Suc n)
    show ?case
    proof (cases n)
      case 0
      then show ?thesis by (simp add: emit_Suc test_event_def)
    next
      case (Suc m)
      then show ?thesis using Suc.IH
        by (simp add: emit_Suc test_event_def content_def meddling_def)
    qed
  qed
  then show ?thesis by (simp add: bus_simps)
qed

section \<open>The claims\<close>

subsection \<open>One-time listeners\<close>

text \<open>
  C1. A listener subscribed with \<^verbatim>\<open>once\<close> is to be removed after the emission that
  invoked it, also when its callback threw, so that a second emission does not invoke it.
  In \<^verbatim>\<open>emit\<close> the listener is pushed on \<^verbatim>\<open>toRemove\<close> inside the \<^verbatim>\<open>try\<close> block,
  after the call (\<open>deliver\<close>): a callback that throws skips the push
  (\<open>emit_keeps_throwing_listener\<close> above). Here the bus holds one one-time listener
  whose callback throws; after the emission the listener is still registered.
\<close>

theorem once_listener_kept_when_callback_throws:
  "run 5 failing [Once (Str ''test'') (Fn 0) Null, Emit (Str ''test'') 1] (new_EventBus, count0) =
     Some (\<lparr>listeners = [(Str ''test'', 0)],
             sets = [(0, [\<lparr>l_id = 0, l_callback = Fn 0, l_context = Null, l_once = True\<rparr>])],
             next_id = 1, next_set = 1\<rparr>,
           \<lparr>world = 1, calls = [\<lparr>fn = Fn 0, receiver = Null, arg = 1\<rparr>],
             console = [(Str ''test'', ''Test error'')]\<rparr>)
   \<and> hasListeners
         \<lparr>listeners = [(Str ''test'', 0)],
          sets = [(0, [\<lparr>l_id = 0, l_callback = Fn 0, l_context = Null, l_once = True\<rparr>])],
          next_id = 1, next_set = 1\<rparr>
         (Str ''test'')"
  by (simp add: bus_simps eval_nat_numeral)

text \<open>
  C4. One-time listeners are removed after the whole delivery, so that one emission invokes
  all of them; and after \<^verbatim>\<open>once(k, cb)\<close> two emissions invoke \<^verbatim>\<open>cb\<close> exactly once,
  with the first payload. When no callback calls the bus or throws, the listeners are all
  invoked and the one-time listeners are removed after the delivery
  (\<open>emit_quiet_observed\<close>, \<open>emit_removes_once_listeners\<close>). The second part fails for a
  callback that throws, which is kept by the first emission and invoked again by the
  second: the outside state counts two calls, and the console has two errors.
\<close>

theorem once_listener_invoked_again_when_callback_throws:
  "map_option snd
     (run 5 failing [Once (Str ''test'') (Fn 0) Null, Emit (Str ''test'') 1,
                     Emit (Str ''test'') 2] (new_EventBus, count0)) =
   Some \<lparr>world = 2,
          calls = [\<lparr>fn = Fn 0, receiver = Null, arg = 1\<rparr>, \<lparr>fn = Fn 0, receiver = Null, arg = 2\<rparr>],
          console = [(Str ''test'', ''Test error''), (Str ''test'', ''Test error'')]\<rparr>"
  by (simp add: bus_simps eval_nat_numeral)

subsection \<open>Delivery\<close>







subsection \<open>The functions that unsubscribe\<close>

text \<open>
  C5, as stated: in any sequence of operations, a second call of the function returned
  by \<^verbatim>\<open>on\<close> or \<^verbatim>\<open>once\<close> changes nothing. The function removes whatever matches its
  callback and context under its key, so this fails when the same callback has been
  subscribed again with the same context in between: subscribe, call the function,
  subscribe again; the function, called a second time, removes the new listener.
\<close>

theorem unsubscribe_removes_later_subscription:
  "run 5 quiet [On test_event (Fn 0) Null, Unsubscribe test_event (Fn 0) Null,
                On test_event (Fn 0) Null] (new_EventBus, out0) =
     Some (\<lparr>listeners = [(Str ''test'', Suc 0)],
             sets = [(0, []),
                     (Suc 0, [\<lparr>l_id = Suc 0, l_callback = Fn 0, l_context = Null, l_once = False\<rparr>])],
             next_id = 2, next_set = 2\<rparr>, out0) \<and>
   fst (on test_event (Fn 0) Null new_EventBus)
     \<lparr>listeners = [(Str ''test'', Suc 0)],
      sets = [(0, []),
              (Suc 0, [\<lparr>l_id = Suc 0, l_callback = Fn 0, l_context = Null, l_once = False\<rparr>])],
      next_id = 2, next_set = 2\<rparr> =
     \<lparr>listeners = [], sets = [(0, []), (Suc 0, [])], next_id = 2, next_set = 2\<rparr>"
  by (simp add: bus_simps eval_nat_numeral)

text \<open>
  C5, amended: once the function returned by \<^verbatim>\<open>on(k, cb, ctx)\<close> or
  \<^verbatim>\<open>once(k, cb, ctx)\<close> has been called, calling it again changes nothing, after any
  sequence of operations in which \<open>cb\<close> is not subscribed again with \<open>ctx\<close> under \<open>k\<close>,
  neither by an operation of the sequence nor by a callback that an emission of the
  sequence calls (the empty sequence included: two calls in a row are one). The bus \<open>b\<close>
  in which the function is first called satisfies the invariant of the bus, as every bus
  that operations have made from a new one does (\<open>run_new_inv\<close>); \<open>B\<close> and \<open>B'\<close> are the
  buses that the sequence leaves.
\<close>

theorem unsubscribe_idempotent:
  assumes "bus_inv b"
    and "\<forall>op \<in> set ops. op \<noteq> On k cb ctx \<and> op \<noteq> Once k cb ctx"
    and "\<forall>cb' ctx' p b' w.
           performs_only (\<lambda>op. op \<noteq> On k cb ctx \<and> op \<noteq> Once k cb ctx) (beh cb' ctx' p b' w)"
    and "run n beh ops (fst (on k cb ctx b0) b, out) = Some (B, out')"
    and "run n beh ops (fst (once k cb ctx b0) b, out) = Some (B', out'')"
  shows "fst (on k cb ctx b0) B = B \<and> fst (once k cb ctx b0) B' = B'"
proof -
  have i: "bus_inv (on_unsubscribe k cb ctx b)" using assms(1) by (rule on_unsubscribe_inv)
  have u: "unmatched k cb ctx (on_unsubscribe k cb ctx b)"
    using assms(1) by (rule unmatched_after_unsubscribe)
  have "bus_inv B \<and> unmatched k cb ctx B"
    using assms(4) unfolding on_handle by (rule run_unmatched[OF i u assms(2,3)])
  moreover have "bus_inv B' \<and> unmatched k cb ctx B'"
    using assms(5) unfolding once_handle once_unsubscribe_eq
    by (rule run_unmatched[OF i u assms(2,3)])
  ultimately show ?thesis
    by (simp add: on_handle once_handle once_unsubscribe_eq on_unsubscribe_unmatched)
qed

theorem unsubscribe_idempotent_witness:
  "bus_inv two_contexts \<and>
   run 5 (meddling (Off test_event (Some (Fn 1)) (Ref 2)) Returns)
     [On test_event (Fn 0) Null, On test_event (Fn 2) (Ref 1), Emit test_event 3]
     (fst (on test_event (Fn 1) (Ref 1) new_EventBus) two_contexts, count0) =
   Some (\<lparr>listeners = [(Str ''test'', 0)],
           sets = [(0, [\<lparr>l_id = 2, l_callback = Fn 0, l_context = Null, l_once = False\<rparr>,
                        \<lparr>l_id = 3, l_callback = Fn 2, l_context = Ref 1, l_once = False\<rparr>])],
           next_id = 4, next_set = Suc 0\<rparr>,
         \<lparr>world = 3,
          calls = [\<lparr>fn = Fn 1, receiver = Ref 2, arg = 3\<rparr>, \<lparr>fn = Fn 0, receiver = Null, arg = 3\<rparr>,
                   \<lparr>fn = Fn 2, receiver = Ref 1, arg = 3\<rparr>],
          console = []\<rparr>) \<and>
   fst (on test_event (Fn 1) (Ref 1) new_EventBus)
     \<lparr>listeners = [(Str ''test'', 0)],
      sets = [(0, [\<lparr>l_id = 2, l_callback = Fn 0, l_context = Null, l_once = False\<rparr>,
                   \<lparr>l_id = 3, l_callback = Fn 2, l_context = Ref 1, l_once = False\<rparr>])],
      next_id = 4, next_set = Suc 0\<rparr> =
     \<lparr>listeners = [(Str ''test'', 0)],
      sets = [(0, [\<lparr>l_id = 2, l_callback = Fn 0, l_context = Null, l_once = False\<rparr>,
                   \<lparr>l_id = 3, l_callback = Fn 2, l_context = Ref 1, l_once = False\<rparr>])],
      next_id = 4, next_set = Suc 0\<rparr>"
proof -
  let ?ops = "[On test_event (Fn 0) Null, On test_event (Fn 2) (Ref 1), Emit test_event 3]"
  let ?beh = "meddling (Off test_event (Some (Fn 1)) (Ref 2)) Returns ::
                (nat, string, nat) behaviour"
  let ?B = "\<lparr>listeners = [(Str ''test'', 0)],
      sets = [(0, [\<lparr>l_id = 2, l_callback = Fn 0, l_context = Null, l_once = False\<rparr>,
                   \<lparr>l_id = 3, l_callback = Fn 2, l_context = Ref 1, l_once = False\<rparr>])],
      next_id = 4, next_set = Suc 0\<rparr>"
  let ?out = "\<lparr>world = 3,
          calls = [\<lparr>fn = Fn 1, receiver = Ref 2, arg = 3\<rparr>, \<lparr>fn = Fn 0, receiver = Null, arg = 3\<rparr>,
                   \<lparr>fn = Fn 2, receiver = Ref 1, arg = 3\<rparr>],
          console = []\<rparr> :: (nat, string, nat) outside"
  have h2: "\<forall>op \<in> set ?ops. op \<noteq> On test_event (Fn 1) (Ref 1) \<and> op \<noteq> Once test_event (Fn 1) (Ref 1)"
    by simp
  have h3: "\<forall>cb' ctx' p b' w.
      performs_only (\<lambda>op. op \<noteq> On test_event (Fn 1) (Ref 1) \<and> op \<noteq> Once test_event (Fn 1) (Ref 1))
        (?beh cb' ctx' p b' w)"
    by (simp add: meddling_def)
  have r: "run 5 ?beh ?ops (fst (on test_event (Fn 1) (Ref 1) new_EventBus) two_contexts, count0) =
      Some (?B, ?out)"
    by (simp add: two_contexts_eq bus_simps eval_nat_numeral)
  have r': "run 5 ?beh ?ops (fst (once test_event (Fn 1) (Ref 1) new_EventBus) two_contexts, count0) =
      Some (?B, ?out)"
    by (simp add: two_contexts_eq bus_simps eval_nat_numeral)
  show ?thesis
    using two_contexts_inv r unsubscribe_idempotent[OF two_contexts_inv h2 h3 r r']
    by simp
qed




subsection \<open>The keys of the registry\<close>

text \<open>
  C6. In every state that a sequence of operations reaches from a new bus, whatever the
  callbacks do that its emissions call, the keys of the registry are the keys that have
  listeners, that is, that have at least one listener: a key left without a listener by
  an operation is not in \<^verbatim>\<open>eventNames()\<close> afterwards. The state reached is that of a
  sequence that returns; \<open>n\<close> bounds how deep its emissions nest and how many listeners
  each visits. A sequence whose callbacks do not call the bus always returns
  (\<open>run_bus_free\<close>); one with a callback that emits its own event at every call does not.
\<close>

theorem registered_keys_have_listeners:
  assumes "run n beh ops (new_EventBus, out) = Some (B, out')"
  shows "(k \<in> set (eventNames B)) = hasListeners B k \<and>
         hasListeners B k = (1 \<le> listenerCount B k)"
  using bus_inv_keys[OF run_new_inv[OF assms], of k]
  by (auto simp add: hasListeners_def)

theorem registered_keys_have_listeners_witness:
  "run 5 (meddling (Unsubscribe test_event (Fn 0) Null) Returns)
     [Once test_event (Fn 2) Null, Emit test_event 5, On test_event (Fn 0) Null,
      Emit test_event 7] (new_EventBus, count0) =
   Some (\<lparr>listeners = [], sets = [(0, []), (Suc 0, [])], next_id = 2, next_set = 2\<rparr>,
         \<lparr>world = 2,
          calls = [\<lparr>fn = Fn 2, receiver = Null, arg = 5\<rparr>, \<lparr>fn = Fn 0, receiver = Null, arg = 7\<rparr>],
          console = []\<rparr>) \<and>
   eventNames \<lparr>listeners = [], sets = [(0, []), (Suc 0, [])], next_id = 2, next_set = 2\<rparr> = [] \<and>
   \<not> hasListeners \<lparr>listeners = [], sets = [(0, []), (Suc 0, [])], next_id = 2, next_set = 2\<rparr>
       test_event"
proof -
  have r: "run 5 (meddling (Unsubscribe test_event (Fn 0) Null) Returns)
     [Once test_event (Fn 2) Null, Emit test_event 5, On test_event (Fn 0) Null,
      Emit test_event 7] (new_EventBus, count0) =
   Some (\<lparr>listeners = [], sets = [(0, []), (Suc 0, [])], next_id = 2, next_set = 2\<rparr>,
         \<lparr>world = 2,
          calls = [\<lparr>fn = Fn 2, receiver = Null, arg = 5\<rparr>, \<lparr>fn = Fn 0, receiver = Null, arg = 7\<rparr>],
          console = []\<rparr>)"
    by (simp add: bus_simps eval_nat_numeral)
  show ?thesis
    using r registered_keys_have_listeners[OF r, of test_event]
    by (simp add: eventNames_def)
qed

subsection \<open>Removing listeners with \<^verbatim>\<open>off\<close>\<close>

text \<open>
  C7. \<^verbatim>\<open>off(k)\<close> without a callback removes the key \<open>k\<close> and with it every listener
  under \<open>k\<close>; \<^verbatim>\<open>off(k, cb)\<close> with the context left at \<^verbatim>\<open>null\<close> removes exactly
  the listeners under \<open>k\<close> whose callback is \<open>cb\<close>, whatever their context. Neither
  changes the listeners under another key.
\<close>

theorem off_without_callback_or_context:
  assumes "bus_inv b"
  shows "map_of (listeners (off k None ctx b)) k = None \<and>
         k \<notin> set (eventNames (off k None ctx b)) \<and>
         listenerCount (off k None ctx b) k = 0 \<and>
         listeners_of (off k (Some cb) Null b) k =
           filter (\<lambda>l. l_callback l \<noteq> cb) (listeners_of b k) \<and>
         (k' \<noteq> k \<longrightarrow> listeners_of (off k None ctx b) k' = listeners_of b k' \<and>
                      listeners_of (off k (Some cb) Null b) k' = listeners_of b k')"
proof -
  have "k' \<noteq> k \<longrightarrow> listeners_of (off k None ctx b) k' = listeners_of b k'"
    by (simp add: off_all listeners_of_def delete_conv' content_def split: option.splits)
  then show ?thesis
    using assms
    by (simp add: off_all delete_conv' eventNames_iff listenerCount_def listeners_of_off_Some)
qed

theorem off_without_callback_or_context_witness:
  "bus_inv two_contexts \<and>
   map_of (listeners (off test_event None Null two_contexts)) test_event = None \<and>
   test_event \<notin> set (eventNames (off test_event None Null two_contexts)) \<and>
   listenerCount (off test_event None Null two_contexts) test_event = 0 \<and>
   listeners_of two_contexts test_event =
     [\<lparr>l_id = 0, l_callback = Fn 1, l_context = Ref 1, l_once = False\<rparr>,
      \<lparr>l_id = 1, l_callback = Fn 1, l_context = Ref 2, l_once = False\<rparr>] \<and>
   listeners_of (off test_event (Some (Fn 1)) Null two_contexts) test_event = []"
  using two_contexts_inv
    off_without_callback_or_context[OF two_contexts_inv, of test_event Null "Fn 1" test_event]
  by (simp add: two_contexts_listeners)




subsection \<open>Keys without listeners\<close>

text \<open>
  C9. On a key without listeners, \<^verbatim>\<open>emit\<close> returns normally and leaves the bus, the
  outside state, the calls made and the console as they were, and \<^verbatim>\<open>off\<close> leaves the
  bus as it was; so does \<^verbatim>\<open>off\<close> with a callback when no listener under the key
  matches.
\<close>

theorem emit_and_off_without_listeners:
  assumes "bus_inv b"
  shows "(\<not> hasListeners b k \<longrightarrow> emit (Suc n) beh k p b out = Some (Returns, b, out)) \<and>
         (\<not> hasListeners b k \<longrightarrow> off k cbo ctx b = b) \<and>
         ((\<forall>l \<in> set (listeners_of b k).
              \<not> (l_callback l = cb \<and> (ctx = Null \<or> strict_eq (l_context l) ctx))) \<longrightarrow>
            off k (Some cb) ctx b = b)"
proof (intro conjI impI)
  assume "\<not> hasListeners b k"
  then have n: "map_of (listeners b) k = None" using assms by (simp add: not_hasListeners)
  show "emit (Suc n) beh k p b out = Some (Returns, b, out)" using n by (simp add: emit_Suc)
  show "off k cbo ctx b = b" using n by (rule off_None)
next
  assume nm: "\<forall>l \<in> set (listeners_of b k).
              \<not> (l_callback l = cb \<and> (ctx = Null \<or> strict_eq (l_context l) ctx))"
  show "off k (Some cb) ctx b = b"
  proof (cases "map_of (listeners b) k")
    case None
    then show ?thesis by (rule off_None)
  next
    case (Some s)
    have "filter (\<lambda>l. \<not> (l_callback l = cb \<and> (ctx = Null \<or> strict_eq (l_context l) ctx)))
            (content b s) = content b s"
      using nm Some by (simp add: listeners_of_Some filter_id_conv)
    then show ?thesis
      using bus_invD(2,3)[OF assms Some] bus_inv_stored[OF assms Some] Some
      by (simp add: off_Some put_back_same)
  qed
qed

theorem emit_and_off_without_listeners_witness:
  "bus_inv two_contexts \<and>
   \<not> hasListeners two_contexts (Str ''other'') \<and>
   emit (Suc 0) (meddling (Emit test_event 9) Returns) (Str ''other'') 7 two_contexts count0 =
     Some (Returns, two_contexts, count0) \<and>
   off (Str ''other'') None Null two_contexts = two_contexts \<and>
   off test_event (Some (Fn 2)) Null two_contexts = two_contexts \<and>
   off test_event (Some (Fn 1)) (Ref 3) two_contexts = two_contexts"
proof -
  have h: "\<not> hasListeners two_contexts (Str ''other'')"
    by (simp add: two_contexts_eq bus_simps)
  have m2: "\<forall>l \<in> set (listeners_of two_contexts test_event).
      \<not> (l_callback l = Fn 2 \<and> (Null = Null \<or> strict_eq (l_context l) Null))"
    by (simp add: two_contexts_listeners)
  have m3: "\<forall>l \<in> set (listeners_of two_contexts test_event).
      \<not> (l_callback l = Fn 1 \<and> (Ref 3 = Null \<or> strict_eq (l_context l) (Ref 3)))"
    by (simp add: two_contexts_listeners strict_eq_def)
  show ?thesis
    using two_contexts_inv h m2 m3
      emit_and_off_without_listeners[OF two_contexts_inv,
        of "Str ''other''" 0 "meddling (Emit test_event 9) Returns" 7 count0 None Null "Fn 2"]
      emit_and_off_without_listeners[OF two_contexts_inv,
        of test_event 0 "meddling (Emit test_event 9) Returns" 7 count0 None "Ref 3" "Fn 1"]
      emit_and_off_without_listeners[OF two_contexts_inv,
        of test_event 0 "meddling (Emit test_event 9) Returns" 7 count0 None Null "Fn 2"]
    by simp
qed

end
